theory Spec2Isabelle
  imports Complex_Main "HOL-Library.Word"
begin

section \<open>JavaScript numbers\<close>

text \<open>
  A JavaScript Number is an IEEE binary64 value: a finite value, one of the two
  infinities, or NaN. A finite value is kept as the real number it denotes; negative
  zero is not kept apart from zero, since \<open>-0 < 0\<close> is false, \<open>-0 * 0x7FFF\<close> is \<open>-0\<close>
  and the conversion to Int16 maps both zeros to 0.
\<close>

datatype jsnum = NaN | NegInf | Fin real | PosInf

text \<open>
  The arithmetic operators round the exact result to the nearest binary64 value, ties
  to the even significand. \<open>quantum x\<close> is the exponent of the last place of the
  binade of \<open>x\<close>: 52 below the exponent of \<open>x\<close>, and \<open>-1074\<close> for a subnormal \<open>x\<close>.
  A result that rounds to \<open>2^1024\<close> or beyond is an infinity.
\<close>

definition round_half_even :: "real \<Rightarrow> int" where
  "round_half_even x =
     (let f = \<lfloor>x\<rfloor>; d = x - of_int f
      in if d < 1/2 then f else if 1/2 < d then f + 1 else if even f then f else f + 1)"

definition quantum :: "real \<Rightarrow> int" where
  "quantum x = max (\<lfloor>log 2 \<bar>x\<bar>\<rfloor> - 52) (- 1074)"

definition threshold64 :: real where
  "threshold64 = 2 ^ 1024"

definition fl64 :: "real \<Rightarrow> jsnum" where
  "fl64 x =
     (if x = 0 then Fin 0
      else
        let e = quantum x;
            r = of_int (round_half_even (x / 2 powi e)) * 2 powi e
        in if threshold64 \<le> \<bar>r\<bar> then (if x < 0 then NegInf else PosInf) else Fin r)"

text \<open>The relational operator \<open><\<close>: every comparison with NaN is false.\<close>

fun js_lt :: "jsnum \<Rightarrow> jsnum \<Rightarrow> bool" where
  "js_lt NaN _ = False"
| "js_lt _ NaN = False"
| "js_lt _ NegInf = False"
| "js_lt NegInf _ = True"
| "js_lt PosInf _ = False"
| "js_lt (Fin a) (Fin b) = (a < b)"
| "js_lt (Fin a) PosInf = True"

text \<open>\<open>Math.min\<close> and \<open>Math.max\<close> of two arguments: NaN if either argument is NaN.\<close>

definition Math_min :: "jsnum \<Rightarrow> jsnum \<Rightarrow> jsnum" where
  "Math_min a b = (if a = NaN \<or> b = NaN then NaN else if js_lt b a then b else a)"

definition Math_max :: "jsnum \<Rightarrow> jsnum \<Rightarrow> jsnum" where
  "Math_max a b = (if a = NaN \<or> b = NaN then NaN else if js_lt a b then b else a)"

text \<open>The operator \<open>*\<close>: an infinity times zero is NaN.\<close>

fun js_mul :: "jsnum \<Rightarrow> jsnum \<Rightarrow> jsnum" where
  "js_mul NaN _ = NaN"
| "js_mul _ NaN = NaN"
| "js_mul (Fin a) (Fin b) = fl64 (a * b)"
| "js_mul (Fin a) PosInf = (if a = 0 then NaN else if a < 0 then NegInf else PosInf)"
| "js_mul (Fin a) NegInf = (if a = 0 then NaN else if a < 0 then PosInf else NegInf)"
| "js_mul PosInf (Fin b) = (if b = 0 then NaN else if b < 0 then NegInf else PosInf)"
| "js_mul NegInf (Fin b) = (if b = 0 then NaN else if b < 0 then PosInf else NegInf)"
| "js_mul PosInf PosInf = PosInf"
| "js_mul PosInf NegInf = NegInf"
| "js_mul NegInf PosInf = NegInf"
| "js_mul NegInf NegInf = PosInf"

text \<open>The operator \<open>+\<close>: the sum of the two infinities is NaN.\<close>

fun js_add :: "jsnum \<Rightarrow> jsnum \<Rightarrow> jsnum" where
  "js_add NaN _ = NaN"
| "js_add _ NaN = NaN"
| "js_add (Fin a) (Fin b) = fl64 (a + b)"
| "js_add PosInf NegInf = NaN"
| "js_add NegInf PosInf = NaN"
| "js_add PosInf _ = PosInf"
| "js_add _ PosInf = PosInf"
| "js_add NegInf _ = NegInf"
| "js_add _ NegInf = NegInf"

text \<open>
  The operator \<open>/\<close> with a finite divisor that is not zero, the only divisions taken
  here (by 60, 2, 32768 and 32767).
\<close>

fun js_div_by :: "jsnum \<Rightarrow> real \<Rightarrow> jsnum" where
  "js_div_by NaN d = NaN"
| "js_div_by (Fin a) d = fl64 (a / d)"
| "js_div_by PosInf d = (if d < 0 then NegInf else PosInf)"
| "js_div_by NegInf d = (if d < 0 then PosInf else NegInf)"

text \<open>
  The abstract operation \<open>truncate\<close> of ECMAScript removes the fractional part,
  rounding towards zero: \<open>-floor(-x)\<close> for a negative \<open>x\<close>, \<open>floor(x)\<close> otherwise.
\<close>

definition js_truncate :: "real \<Rightarrow> int" where
  "js_truncate x = (if x < 0 then - \<lfloor>- x\<rfloor> else \<lfloor>x\<rfloor>)"

text \<open>
  Storing a Number into an \<open>Int16Array\<close> applies \<open>ToInt16\<close>: NaN and the infinities
  become 0, a finite value is truncated and taken modulo \<open>2^16\<close> into the signed
  range. The element is a 16-bit word, read as a signed value with \<open>sint\<close>.
\<close>

type_synonym int16 = "16 word"

fun ToInt16 :: "jsnum \<Rightarrow> int16" where
  "ToInt16 (Fin x) = word_of_int (js_truncate x)"
| "ToInt16 _ = 0"

section \<open>The PCM encoders of the two capture paths\<close>

text \<open>
  An element of a \<open>Float32Array\<close> holds a binary32 value: storing a Number rounds it to
  the nearest one, ties to the even significand, with the last place 23 below the
  exponent and at \<open>-149\<close> for a subnormal value; a value that rounds to \<open>2^128\<close> or beyond
  is stored as an infinity. The blocks that both capture paths read are such arrays.
\<close>

definition quantum32 :: "real \<Rightarrow> int" where
  "quantum32 x = max (\<lfloor>log 2 \<bar>x\<bar>\<rfloor> - 23) (- 149)"

definition threshold32 :: real where
  "threshold32 = 2 ^ 128"

definition fl32 :: "real \<Rightarrow> jsnum" where
  "fl32 x =
     (if x = 0 then Fin 0
      else
        let e = quantum32 x;
            r = of_int (round_half_even (x / 2 powi e)) * 2 powi e
        in if threshold32 \<le> \<bar>r\<bar> then (if x < 0 then NegInf else PosInf) else Fin r)"

fun Float32Array_store :: "jsnum \<Rightarrow> jsnum" where
  "Float32Array_store (Fin x) = fl32 x"
| "Float32Array_store v = v"

text \<open>The \<open>Float32Array\<close> made of a sequence of Numbers.\<close>

definition Float32Array_from :: "jsnum list \<Rightarrow> jsnum list" where
  "Float32Array_from xs = map Float32Array_store xs"

text \<open>
  Reading a \<open>Float32Array\<close> at an index: out of range the read gives \<open>undefined\<close>,
  which \<open>Math.min\<close> converts to NaN.
\<close>

definition f32_at :: "jsnum list \<Rightarrow> nat \<Rightarrow> jsnum" where
  "f32_at xs i = (if i < length xs then xs ! i else NaN)"

subsection \<open>The AudioWorklet processor\<close>

text \<open>
  The loop of \<open>PCMProcessor.process\<close>:
  \<^verbatim>\<open>for (let i = 0; i < length; i++) {
    let sL = Math.max(-1, Math.min(1, inputL[i]));
    pcmData[pcmIndex++] = sL < 0 ? sL * 0x8000 : sL * 0x7FFF;
    let sR = Math.max(-1, Math.min(1, inputR[i]));
    pcmData[pcmIndex++] = sR < 0 ? sR * 0x8000 : sR * 0x7FFF;
  }\<close>
  A store past the end of an \<open>Int16Array\<close> is ignored, as \<open>list_update\<close> does.
\<close>

function process_loop ::
  "jsnum list \<Rightarrow> jsnum list \<Rightarrow> nat \<Rightarrow> nat \<Rightarrow> nat \<Rightarrow> int16 list \<Rightarrow> int16 list" where
  "process_loop inputL inputR len i pcmIndex pcmData =
     (if i < len then
        let sL = Math_max (Fin (- 1)) (Math_min (Fin 1) (f32_at inputL i));
            pcmData = pcmData[pcmIndex :=
              ToInt16 (if js_lt sL (Fin 0) then js_mul sL (Fin 32768) else js_mul sL (Fin 32767))];
            pcmIndex = pcmIndex + 1;
            sR = Math_max (Fin (- 1)) (Math_min (Fin 1) (f32_at inputR i));
            pcmData = pcmData[pcmIndex :=
              ToInt16 (if js_lt sR (Fin 0) then js_mul sR (Fin 32768) else js_mul sR (Fin 32767))];
            pcmIndex = pcmIndex + 1
        in process_loop inputL inputR len (i + 1) pcmIndex pcmData
      else pcmData)"
  by pat_completeness auto
termination
  by (relation "measure (\<lambda>(inputL, inputR, len, i, pcmIndex, pcmData). len - i)") auto

declare process_loop.simps [simp del]

text \<open>
  \<open>PCMProcessor.process\<close>. \<open>inputs\<close> is the list of inputs, each a list of channels.
  The result is the buffer posted to the main thread, if any; the method returns
  \<open>true\<close> on every path. The new \<open>Int16Array(length * 2)\<close> is filled with zeros.
\<close>

definition PCMProcessor_process :: "jsnum list list list \<Rightarrow> int16 list option" where
  "PCMProcessor_process inputs =
     (case inputs of
        [] \<Rightarrow> None
      | input # _ \<Rightarrow>
          (case input of
             [] \<Rightarrow> None
           | inputL # rest \<Rightarrow>
               let inputR = (case rest of [] \<Rightarrow> inputL | r # _ \<Rightarrow> r);
                   len = length inputL;
                   pcmData = replicate (len * 2) 0
               in Some (process_loop inputL inputR len 0 0 pcmData)))"

subsection \<open>The ScriptProcessor handler\<close>

text \<open>The loop of \<open>onaudioprocess\<close> in \<open>useAudioStream\<close>, written out there a second time.\<close>

function onaudioprocess_loop ::
  "jsnum list \<Rightarrow> jsnum list \<Rightarrow> nat \<Rightarrow> nat \<Rightarrow> nat \<Rightarrow> int16 list \<Rightarrow> int16 list" where
  "onaudioprocess_loop inputL inputR len i pcmIndex pcmData =
     (if i < len then
        let sL = Math_max (Fin (- 1)) (Math_min (Fin 1) (f32_at inputL i));
            pcmData = pcmData[pcmIndex :=
              ToInt16 (if js_lt sL (Fin 0) then js_mul sL (Fin 32768) else js_mul sL (Fin 32767))];
            pcmIndex = pcmIndex + 1;
            sR = Math_max (Fin (- 1)) (Math_min (Fin 1) (f32_at inputR i));
            pcmData = pcmData[pcmIndex :=
              ToInt16 (if js_lt sR (Fin 0) then js_mul sR (Fin 32768) else js_mul sR (Fin 32767))];
            pcmIndex = pcmIndex + 1
        in onaudioprocess_loop inputL inputR len (i + 1) pcmIndex pcmData
      else pcmData)"
  by pat_completeness auto
termination
  by (relation "measure (\<lambda>(inputL, inputR, len, i, pcmIndex, pcmData). len - i)") auto

declare onaudioprocess_loop.simps [simp del]

datatype js_error = TypeError | SyntaxError | IndexSizeError | InvalidStateError

text \<open>
  An \<open>AudioBuffer\<close> is the list of its channels; \<open>getChannelData\<close> throws for a
  channel the buffer does not have.
\<close>

definition getChannelData :: "jsnum list list \<Rightarrow> nat \<Rightarrow> js_error + jsnum list" where
  "getChannelData buf c = (if c < length buf then Inr (buf ! c) else Inl IndexSizeError)"

text \<open>
  The body of \<open>onaudioprocess\<close> inside the test that the socket is open, up to the
  buffer handed to \<open>send\<close>: \<open>Inr None\<close> is the early return on channels of
  different lengths.
\<close>

definition onaudioprocess_pcm :: "jsnum list list \<Rightarrow> js_error + int16 list option" where
  "onaudioprocess_pcm inputBuffer =
     (case getChannelData inputBuffer 0 of
        Inl e \<Rightarrow> Inl e
      | Inr inputL \<Rightarrow>
          (case (if length inputBuffer > 1 then getChannelData inputBuffer 1 else Inr inputL) of
             Inl e \<Rightarrow> Inl e
           | Inr inputR \<Rightarrow>
               if length inputL \<noteq> length inputR then Inr None
               else
                 let len = length inputL;
                     pcmData = replicate (len * 2) 0
                 in Inr (Some (onaudioprocess_loop inputL inputR len 0 0 pcmData))))"

section \<open>The hook \<open>useAudioStream\<close>\<close>

subsection \<open>Values, messages and sockets\<close>

text \<open>
  A JavaScript value as \<open>JSON.parse\<close> returns it or a property read finds it; an
  object is the list of its properties, the first binding of a key being its value.
\<close>

datatype jsval =
    JUndefined
  | JNull
  | JBool bool
  | JNum jsnum
  | JStr string
  | JArr "jsval list"
  | JObj "(string \<times> jsval) list"

text \<open>
  A property read \<open>data.key\<close>: it throws on \<open>undefined\<close> and \<open>null\<close>, and no value
  that \<open>JSON.parse\<close> returns other than an object has one of the properties read here.
\<close>

fun get_prop :: "jsval \<Rightarrow> string \<Rightarrow> js_error + jsval" where
  "get_prop JUndefined k = Inl TypeError"
| "get_prop JNull k = Inl TypeError"
| "get_prop (JObj kvs) k = (case map_of kvs k of None \<Rightarrow> Inr JUndefined | Some v \<Rightarrow> Inr v)"
| "get_prop _ k = Inr JUndefined"

text \<open>The test \<open>if (v)\<close>.\<close>

fun truthy :: "jsval \<Rightarrow> bool" where
  "truthy JUndefined = False"
| "truthy JNull = False"
| "truthy (JBool b) = b"
| "truthy (JNum x) = (x \<noteq> NaN \<and> x \<noteq> Fin 0)"
| "truthy (JStr s) = (s \<noteq> [])"
| "truthy (JArr _) = True"
| "truthy (JObj _) = True"

text \<open>\<open>JSON.stringify\<close> writes a number that is not finite as \<open>null\<close>.\<close>

fun JSON_number :: "jsnum \<Rightarrow> jsval" where
  "JSON_number (Fin x) = JNum (Fin x)"
| "JSON_number _ = JNull"

text \<open>
  What goes over the socket: the text \<open>JSON.stringify\<close> makes of an object literal,
  kept as the document it denotes, or a binary buffer of samples.
\<close>

datatype ws_data = Text jsval | Binary "int16 list"

datatype ready_state = CONNECTING | OPEN | CLOSING | CLOSED

record websocket =
  readyState :: ready_state
  sent :: "ws_data list"

text \<open>
  \<open>WebSocket.send\<close>: it throws while the socket is connecting, transmits on an open
  socket, and drops the data on a closing or closed one.
\<close>

definition ws_send :: "websocket \<Rightarrow> ws_data \<Rightarrow> js_error + websocket" where
  "ws_send ws d =
     (case readyState ws of
        CONNECTING \<Rightarrow> Inl InvalidStateError
      | OPEN \<Rightarrow> Inr (ws\<lparr>sent := sent ws @ [d]\<rparr>)
      | _ \<Rightarrow> Inr ws)"

text \<open>\<open>WebSocket.close\<close>: a socket that is connecting or open starts closing.\<close>

definition ws_close :: "websocket \<Rightarrow> websocket" where
  "ws_close ws =
     (case readyState ws of
        CLOSING \<Rightarrow> ws
      | CLOSED \<Rightarrow> ws
      | _ \<Rightarrow> ws\<lparr>readyState := CLOSING\<rparr>)"

record audio_context =
  sampleRate :: jsnum
  destination_channelCount :: nat

record recording =
  id_field :: jsval
  filename :: jsval

text \<open>
  The state of one mounted hook: the six \<open>useState\<close> cells and the refs. The sockets
  the hook has created live in a store, and \<open>socketRef\<close> holds an index into it,
  since the handlers of a socket keep sending on it after \<open>socketRef\<close> has moved on.
\<close>

record hook_state =
  isConnected :: bool
  isRecording :: bool
  rms :: jsval
  spectrum :: jsval
  panning :: jsval
  lastRecording :: "recording option"
  sockets :: "websocket list"
  socketRef :: "nat option"
  audioContextRef :: "audio_context option"

definition initial_state :: hook_state where
  "initial_state =
     \<lparr>isConnected = False, isRecording = False, rms = JNum (Fin (- 100)), spectrum = JArr [],
      panning = JNum (Fin 0), lastRecording = None, sockets = [], socketRef = None,
      audioContextRef = None\<rparr>"

text \<open>The test \<open>socketRef.current?.readyState === WebSocket.OPEN\<close>.\<close>

definition socket_open :: "hook_state \<Rightarrow> bool" where
  "socket_open st =
     (case socketRef st of
        None \<Rightarrow> False
      | Some i \<Rightarrow> i < length (sockets st) \<and> readyState (sockets st ! i) = OPEN)"

text \<open>\<open>send\<close> on the socket at an index of the store.\<close>

definition send_on :: "nat \<Rightarrow> ws_data \<Rightarrow> hook_state \<Rightarrow> js_error + hook_state" where
  "send_on i d st =
     (if i < length (sockets st) then
        (case ws_send (sockets st ! i) d of
           Inl e \<Rightarrow> Inl e
         | Inr ws \<Rightarrow> Inr (st\<lparr>sockets := (sockets st)[i := ws]\<rparr>))
      else Inl TypeError)"

text \<open>\<open>socketRef.current.send(d)\<close>.\<close>

definition send_current :: "ws_data \<Rightarrow> hook_state \<Rightarrow> js_error + hook_state" where
  "send_current d st = (case socketRef st of None \<Rightarrow> Inl TypeError | Some i \<Rightarrow> send_on i d st)"

text \<open>
  \<open>audioContextRef.current?.sampleRate || 44100\<close> and
  \<open>audioContextRef.current?.destination.channelCount || 2\<close>: the default stands in for
  \<open>undefined\<close>, NaN and 0.
\<close>

definition current_sampleRate :: "hook_state \<Rightarrow> jsnum" where
  "current_sampleRate st =
     (case audioContextRef st of
        None \<Rightarrow> Fin 44100
      | Some ctx \<Rightarrow> if sampleRate ctx = NaN \<or> sampleRate ctx = Fin 0 then Fin 44100 else sampleRate ctx)"

definition current_channels :: "hook_state \<Rightarrow> jsnum" where
  "current_channels st =
     (case audioContextRef st of
        None \<Rightarrow> Fin 2
      | Some ctx \<Rightarrow>
          if destination_channelCount ctx = 0 then Fin 2
          else Fin (real (destination_channelCount ctx)))"

subsection \<open>The functions and handlers of the hook\<close>

definition connectWebSocket :: "hook_state \<Rightarrow> hook_state" where
  "connectWebSocket st =
     (if socket_open st then st
      else st\<lparr>sockets := sockets st @ [\<lparr>readyState = CONNECTING, sent = []\<rparr>],
              socketRef := Some (length (sockets st))\<rparr>)"

definition init_message :: "jsnum \<Rightarrow> jsnum \<Rightarrow> jsval" where
  "init_message sr ch =
     JObj [(''action'', JStr ''init''), (''sample_rate'', JSON_number sr),
           (''channels'', JSON_number ch)]"

text \<open>\<open>ws.onopen\<close> of the socket at index \<open>i\<close>; \<open>ws\<close> is that socket, not \<open>socketRef\<close>.\<close>

definition ws_onopen :: "nat \<Rightarrow> hook_state \<Rightarrow> js_error + hook_state" where
  "ws_onopen i st =
     (let st = st\<lparr>isConnected := True\<rparr>;
          sample_rate = current_sampleRate st;
          channels = current_channels st
      in send_on i (Text (init_message sample_rate channels)) st)"

definition ws_onclose :: "hook_state \<Rightarrow> hook_state" where
  "ws_onclose st = st\<lparr>isConnected := False\<rparr>"

text \<open>
  \<open>ws.onmessage\<close>. The argument is what \<open>JSON.parse(event.data)\<close> returns, \<open>None\<close> when
  it throws. A handler that throws has set no state before.
\<close>

definition ws_onmessage :: "jsval option \<Rightarrow> hook_state \<Rightarrow> js_error + hook_state" where
  "ws_onmessage parsed st =
     (case parsed of
        None \<Rightarrow> Inl SyntaxError
      | Some data \<Rightarrow>
          (case get_prop data ''type'' of
             Inl e \<Rightarrow> Inl e
           | Inr ty \<Rightarrow>
               if ty = JStr ''meter'' then
                 (case (get_prop data ''rms'', get_prop data ''spectrum'', get_prop data ''panning'') of
                    (Inr r, Inr sp, Inr pan) \<Rightarrow>
                      let st = st\<lparr>rms := r\<rparr>;
                          st = (if truthy sp then st\<lparr>spectrum := sp\<rparr> else st);
                          st = (if pan \<noteq> JUndefined then st\<lparr>panning := pan\<rparr> else st)
                      in Inr st
                  | _ \<Rightarrow> Inl TypeError)
               else if ty = JStr ''recording_saved'' then
                 (case (get_prop data ''id'', get_prop data ''filename'') of
                    (Inr i, Inr f) \<Rightarrow>
                      Inr (st\<lparr>lastRecording := Some \<lparr>id_field = i, filename = f\<rparr>,
                              isRecording := False\<rparr>)
                  | _ \<Rightarrow> Inl TypeError)
               else Inr st))"

text \<open>
  \<open>startAudio\<close> up to its first \<open>await\<close>, and the assignment to \<open>audioContextRef\<close> once
  the microphone stream is there.
\<close>

definition startAudio_begin :: "hook_state \<Rightarrow> hook_state" where
  "startAudio_begin st = (if socketRef st = None then connectWebSocket st else st)"

definition startAudio_context :: "audio_context \<Rightarrow> hook_state \<Rightarrow> hook_state" where
  "startAudio_context ctx st = st\<lparr>audioContextRef := Some ctx\<rparr>"

text \<open>\<open>onaudioprocess\<close> of the ScriptProcessor path.\<close>

definition onaudioprocess :: "jsnum list list \<Rightarrow> hook_state \<Rightarrow> js_error + hook_state" where
  "onaudioprocess inputBuffer st =
     (if socket_open st then
        (case onaudioprocess_pcm inputBuffer of
           Inl e \<Rightarrow> Inl e
         | Inr None \<Rightarrow> Inr st
         | Inr (Some pcmData) \<Rightarrow> send_current (Binary pcmData) st)
      else Inr st)"

text \<open>
  The AudioWorklet path: \<open>workletNodeRef.current.port.onmessage\<close> forwards the buffer
  the processor has posted.
\<close>

definition port_onmessage :: "int16 list \<Rightarrow> hook_state \<Rightarrow> js_error + hook_state" where
  "port_onmessage data st =
     (if socket_open st then send_current (Binary data) st else Inr st)"

definition start_record_message :: "jsnum \<Rightarrow> jsnum \<Rightarrow> jsval" where
  "start_record_message sr ch =
     JObj [(''action'', JStr ''start_record''), (''sample_rate'', JSON_number sr),
           (''channels'', JSON_number ch)]"

definition startRecording :: "hook_state \<Rightarrow> js_error + hook_state" where
  "startRecording st =
     (if socket_open st then
        (let sample_rate = current_sampleRate st;
             channels = current_channels st
         in case send_current (Text (start_record_message sample_rate channels)) st of
              Inl e \<Rightarrow> Inl e
            | Inr st \<Rightarrow> Inr (st\<lparr>isRecording := True\<rparr>))
      else Inr st)"

definition stopRecording :: "hook_state \<Rightarrow> js_error + hook_state" where
  "stopRecording st =
     (if socket_open st then send_current (Text (JObj [(''action'', JStr ''stop_record'')])) st
      else Inr st)"

definition set_params_message :: "jsnum \<Rightarrow> bool \<Rightarrow> jsnum \<Rightarrow> jsnum \<Rightarrow> jsval" where
  "set_params_message gain filter_enabled cutoff integrationTime =
     JObj [(''action'', JStr ''set_params''), (''gain'', JSON_number gain),
           (''filter_enabled'', JBool filter_enabled), (''cutoff_freq'', JSON_number cutoff),
           (''integration_time'', JSON_number integrationTime)]"

definition setSettings ::
  "jsnum \<Rightarrow> bool \<Rightarrow> jsnum \<Rightarrow> jsnum \<Rightarrow> hook_state \<Rightarrow> js_error + hook_state" where
  "setSettings gain filter_enabled cutoff integrationTime st =
     (if socket_open st then
        send_current (Text (set_params_message gain filter_enabled cutoff integrationTime)) st
      else Inr st)"

text \<open>The cleanup of the effect: \<open>socketRef.current?.close()\<close>.\<close>

definition cleanup :: "hook_state \<Rightarrow> hook_state" where
  "cleanup st =
     (case socketRef st of
        None \<Rightarrow> st
      | Some i \<Rightarrow>
          if i < length (sockets st) then st\<lparr>sockets := (sockets st)[i := ws_close (sockets st ! i)]\<rparr>
          else st)"

subsection \<open>Runs of the hook\<close>

text \<open>
  What happens to a mounted hook, one event at a time; handlers run to completion.
  The browser opens a socket that is connecting by setting its state to \<open>OPEN\<close> and
  firing \<open>open\<close> in the same turn of the event loop, delivers messages on a socket that is open or
  closing, and closes a socket that is not closed yet. An event that cannot happen in
  the state, or a handler that throws, leaves the state as it is.
\<close>

datatype event =
    Mount
  | Unmount
  | WsOpened nat
  | WsClosed nat
  | WsMessage nat "jsval option"
  | CallStartAudio
  | AudioContextCreated audio_context
  | AudioProcess "jsnum list list"
  | WorkletQuantum "jsnum list list list"
  | CallStartRecording
  | CallStopRecording
  | CallSetSettings jsnum bool jsnum jsnum

definition or_unchanged :: "hook_state \<Rightarrow> js_error + hook_state \<Rightarrow> hook_state" where
  "or_unchanged st r = (case r of Inl e \<Rightarrow> st | Inr st' \<Rightarrow> st')"

definition set_readyState :: "nat \<Rightarrow> ready_state \<Rightarrow> hook_state \<Rightarrow> hook_state" where
  "set_readyState i r st = st\<lparr>sockets := (sockets st)[i := (sockets st ! i)\<lparr>readyState := r\<rparr>]\<rparr>"

fun step :: "event \<Rightarrow> hook_state \<Rightarrow> hook_state" where
  "step Mount st = connectWebSocket st"
| "step Unmount st = cleanup st"
| "step (WsOpened i) st =
     (if i < length (sockets st) \<and> readyState (sockets st ! i) = CONNECTING
      then or_unchanged (set_readyState i OPEN st) (ws_onopen i (set_readyState i OPEN st))
      else st)"
| "step (WsClosed i) st =
     (if i < length (sockets st) \<and> readyState (sockets st ! i) \<noteq> CLOSED
      then ws_onclose (set_readyState i CLOSED st) else st)"
| "step (WsMessage i parsed) st =
     (if i < length (sockets st) \<and> readyState (sockets st ! i) \<in> {OPEN, CLOSING}
      then or_unchanged st (ws_onmessage parsed st) else st)"
| "step CallStartAudio st = startAudio_begin st"
| "step (AudioContextCreated ctx) st = startAudio_context ctx st"
| "step (AudioProcess inputBuffer) st = or_unchanged st (onaudioprocess inputBuffer st)"
| "step (WorkletQuantum inputs) st =
     (case PCMProcessor_process inputs of
        None \<Rightarrow> st
      | Some data \<Rightarrow> or_unchanged st (port_onmessage data st))"
| "step CallStartRecording st = or_unchanged st (startRecording st)"
| "step CallStopRecording st = or_unchanged st (stopRecording st)"
| "step (CallSetSettings gain filter_enabled cutoff integrationTime) st =
     or_unchanged st (setSettings gain filter_enabled cutoff integrationTime st)"

fun run :: "event list \<Rightarrow> hook_state \<Rightarrow> hook_state" where
  "run [] st = st"
| "run (e # es) st = run es (step e st)"

section \<open>The level meter \<open>VuMeter\<close>\<close>

datatype canvas_op =
    ClearRect jsnum jsnum jsnum jsnum
  | FillRect string jsnum jsnum jsnum jsnum
  | FillText_dB jsnum jsnum jsnum

text \<open>
  The fraction of the track that the bar fills:
  \<^verbatim>\<open>let normalized = (dbLevel + 60) / 60;
  normalized = Math.max(0, Math.min(1, normalized));\<close>
\<close>

definition normalized :: "jsnum \<Rightarrow> jsnum" where
  "normalized dbLevel =
     (let normalized = js_div_by (js_add dbLevel (Fin 60)) 60
      in Math_max (Fin 0) (Math_min (Fin 1) normalized))"

text \<open>
  The effect of \<open>VuMeter\<close>, as the list of the drawing calls on the context of a canvas
  of the given size; nothing is drawn without a canvas or a context. Fill styles are
  named by their colour, the gradient by \<open>gradient\<close>; \<open>FillText_dB v x y\<close> is the label
  of \<open>v.toFixed(1)\<close> followed by \<open>dB\<close>.
\<close>

definition VuMeter_draw :: "(nat \<times> nat) option \<Rightarrow> bool \<Rightarrow> jsnum \<Rightarrow> canvas_op list" where
  "VuMeter_draw canvas has_ctx dbLevel =
     (case canvas of
        None \<Rightarrow> []
      | Some (w, h) \<Rightarrow>
          if \<not> has_ctx then []
          else
            let width = Fin (real w);
                height = Fin (real h)
            in [ClearRect (Fin 0) (Fin 0) width height,
                FillRect ''#333'' (Fin 0) (Fin 0) width height,
                FillRect ''gradient'' (Fin 0) (Fin 0) (js_mul width (normalized dbLevel)) height,
                FillText_dB dbLevel (Fin 10) (js_add (js_div_by height 2) (Fin 4))])"

section \<open>The decoder of the specification\<close>

text \<open>
  Modelled from the spec: the decoder of \<open>SampleCodec\<close> on one sample. The decoder runs
  on the server and is not among the sources. The specification has it read the frame
  as 16-bit signed integers and turn each into a float, by \<open>sample / 32768.0\<close> for a
  negative sample and \<open>sample / 32767.0\<close> otherwise. The division is that of binary64.
\<close>

definition decode_sample :: "int16 \<Rightarrow> jsnum" where
  "decode_sample x =
     (if sint x < 0 then js_div_by (Fin (real_of_int (sint x))) 32768
      else js_div_by (Fin (real_of_int (sint x))) 32767)"

text \<open>
  Modelled from the spec: the de-interleaving of the decoder, absent from the sources
  as well; the samples alternate left, right.
\<close>

fun deinterleave :: "int16 list \<Rightarrow> jsnum list \<times> jsnum list" where
  "deinterleave (l # r # frame) =
     (let (ls, rs) = deinterleave frame in (decode_sample l # ls, decode_sample r # rs))"
| "deinterleave _ = ([], [])"

text \<open>
  Modelled from the spec: the decoder on a frame, absent from the sources as well; it
  rejects the empty frame and a frame with an odd number of samples.
\<close>

definition decode :: "int16 list \<Rightarrow> (jsnum list \<times> jsnum list) option" where
  "decode frame = (if frame = [] \<or> odd (length frame) then None else Some (deinterleave frame))"

section \<open>Notions for the statements\<close>

text \<open>
  The value that both loops store for one sample: the clamp, the scaling by \<open>0x8000\<close>
  or \<open>0x7FFF\<close> and the store into the \<open>Int16Array\<close>.
\<close>

definition encode_sample :: "jsnum \<Rightarrow> int16" where
  "encode_sample x =
     (let s = Math_max (Fin (- 1)) (Math_min (Fin 1) x)
      in ToInt16 (if js_lt s (Fin 0) then js_mul s (Fin 32768) else js_mul s (Fin 32767)))"

text \<open>
  The finite values of a \<open>Float32Array\<close>: the binary32 values, with a significand of 24
  bits and an exponent of the last place from \<open>-149\<close>.
\<close>

definition binary32 :: "real \<Rightarrow> bool" where
  "binary32 x \<longleftrightarrow> (\<exists>m e :: int. \<bar>m\<bar> < 2 ^ 24 \<and> - 149 \<le> e \<and> x = of_int m * 2 powi e)"

text \<open>The frames \<open>i\<close> to \<open>len - 1\<close> of the interleaved buffer.\<close>

definition frames :: "jsnum list \<Rightarrow> jsnum list \<Rightarrow> nat \<Rightarrow> nat \<Rightarrow> int16 list" where
  "frames inputL inputR i len =
     concat (map (\<lambda>j. [encode_sample (f32_at inputL j), encode_sample (f32_at inputR j)]) [i..<len])"

text \<open>The right channel both paths take: the second channel, or the first again.\<close>

definition right_channel :: "jsnum list \<Rightarrow> jsnum list list \<Rightarrow> jsnum list" where
  "right_channel inputL rest = (case rest of [] \<Rightarrow> inputL | r # _ \<Rightarrow> r)"

text \<open>
  The mapping of the specification on a finite sample: clamp to \<open>[-1, 1]\<close>, scale by
  32768 below zero and by 32767 otherwise, truncate towards zero.
\<close>

definition clamp_scale_truncate :: "real \<Rightarrow> int" where
  "clamp_scale_truncate s =
     (let c = max (- 1) (min 1 s);
          p = (if c < 0 then c * 32768 else c * 32767)
      in if p < 0 then \<lceil>p\<rceil> else \<lfloor>p\<rfloor>)"

text \<open>
  One sample through the decoder, into a \<open>Float32Array\<close> and through the encoder.
\<close>

definition reencode :: "int16 \<Rightarrow> int16" where
  "reencode x = encode_sample (Float32Array_store (decode_sample x))"

text \<open>An \<open>init\<close> message: the action and the two fields, in the order of the literal.\<close>

fun is_init :: "ws_data \<Rightarrow> bool" where
  "is_init (Text (JObj [(a, JStr act), (s, _), (c, _)])) =
     (a = ''action'' \<and> act = ''init'' \<and> s = ''sample_rate'' \<and> c = ''channels'')"
| "is_init _ = False"

text \<open>
  What holds of every socket of a run: nothing is sent while it connects, an open
  socket has sent something, and what was sent first is an \<open>init\<close> message.
\<close>

definition socket_inv :: "websocket \<Rightarrow> bool" where
  "socket_inv ws \<longleftrightarrow>
     (readyState ws = CONNECTING \<longrightarrow> sent ws = []) \<and>
     (readyState ws = OPEN \<longrightarrow> sent ws \<noteq> []) \<and>
     (sent ws \<noteq> [] \<longrightarrow> is_init (hd (sent ws)))"

definition sockets_inv :: "hook_state \<Rightarrow> bool" where
  "sockets_inv st \<longleftrightarrow> (\<forall>ws \<in> set (sockets st). socket_inv ws)"

text \<open>The \<open>type\<close> of an incoming message, if it parses and has one.\<close>

definition message_type :: "jsval option \<Rightarrow> jsval option" where
  "message_type parsed =
     (case parsed of
        None \<Rightarrow> None
      | Some data \<Rightarrow> (case get_prop data ''type'' of Inl e \<Rightarrow> None | Inr ty \<Rightarrow> Some ty))"

text \<open>The messages of the server in a run.\<close>

fun is_message :: "event \<Rightarrow> bool" where
  "is_message (WsMessage _ _) = True"
| "is_message _ = False"

fun received :: "event list \<Rightarrow> jsval option list" where
  "received [] = []"
| "received (WsMessage i parsed # es) = parsed # received es"
| "received (e # es) = received es"

text \<open>The four cells that only \<open>ws.onmessage\<close> writes.\<close>

definition meters :: "hook_state \<Rightarrow> jsval \<times> jsval \<times> jsval \<times> recording option" where
  "meters st = (rms st, spectrum st, panning st, lastRecording st)"

text \<open>A hook that has mounted and whose socket has opened, and a message of the server.\<close>

definition example_open :: hook_state where
  "example_open = run [Mount, WsOpened 0] initial_state"

definition saved_example :: jsval where
  "saved_example = JObj [(''type'', JStr ''recording_saved''), (''id'', JNum (Fin 7)),
                         (''filename'', JStr ''take.wav'')]"


section \<open>Rounding\<close>

lemma below_threshold64: "\<bar>x\<bar> \<le> 2 ^ 64 \<Longrightarrow> \<bar>x\<bar> < threshold64"
proof -
  have "(2::real) ^ 64 < 2 ^ 1024" by (rule power_strict_increasing) simp_all
  then show "\<bar>x\<bar> \<le> 2 ^ 64 \<Longrightarrow> \<bar>x\<bar> < threshold64"
    unfolding threshold64_def by (rule order_le_less_trans[rotated])
qed

lemma round_half_even_of_int [simp]: "round_half_even (of_int n) = n"
  by (simp add: round_half_even_def)

lemma round_half_even_near:
  assumes "\<bar>d\<bar> < 1/2"
  shows "round_half_even (of_int n + d) = n"
proof (cases "0 \<le> d")
  case True
  then have "\<lfloor>of_int n + d\<rfloor> = n" using assms by (simp add: floor_unique)
  then show ?thesis using True assms by (simp add: round_half_even_def Let_def)
next
  case False
  then have "\<lfloor>of_int n + d\<rfloor> = n - 1" using assms by (intro floor_unique) auto
  then show ?thesis using False assms by (simp add: round_half_even_def Let_def)
qed

lemma round_half_even_le:
  assumes "x \<le> of_int N"
  shows "round_half_even x \<le> N"
proof -
  have f: "\<lfloor>x\<rfloor> \<le> N" using assms by (simp add: floor_le_iff)
  show ?thesis
  proof (cases "\<lfloor>x\<rfloor> = N")
    case True
    then have "x = of_int N" using assms
      by (metis of_int_floor_le order_antisym)
    then show ?thesis by simp
  next
    case False
    with f have "\<lfloor>x\<rfloor> + 1 \<le> N" by simp
    then show ?thesis by (auto simp: round_half_even_def Let_def)
  qed
qed

lemma round_half_even_ge:
  assumes "of_int N \<le> x"
  shows "N \<le> round_half_even x"
proof -
  have "N \<le> \<lfloor>x\<rfloor>" using assms by (simp add: le_floor_iff)
  then show ?thesis by (auto simp: round_half_even_def Let_def)
qed

lemma floor_log2_eq:
  assumes "2 powi k \<le> x" "x < 2 powi (k + 1)"
  shows "\<lfloor>log 2 x\<rfloor> = k"
proof -
  have pos: "0 < x" using assms(1) by (smt (verit) zero_less_power_int)
  have p: "(2::real) powr (real_of_int j) = 2 powi j" for j
    by (rule powr_real_of_int') simp_all
  have "2 powr (real_of_int k) \<le> x" "x < 2 powr (real_of_int (k + 1))"
    using assms unfolding p by blast+
  then show ?thesis using pos by (subst floor_log_eq_powr_iff) simp_all
qed


lemma floor_log2_bounds:
  assumes "0 < x"
  shows "2 powi \<lfloor>log 2 x\<rfloor> \<le> x" "x < 2 powi (\<lfloor>log 2 x\<rfloor> + 1)"
proof -
  have p: "(2::real) powr (real_of_int j) = 2 powi j" for j
    by (rule powr_real_of_int') simp_all
  have "2 powr (real_of_int \<lfloor>log 2 x\<rfloor>) \<le> x \<and> x < 2 powr (real_of_int (\<lfloor>log 2 x\<rfloor> + 1))"
    using floor_log_eq_powr_iff[of x 2 "\<lfloor>log 2 x\<rfloor>"] assms by simp
  then show "2 powi \<lfloor>log 2 x\<rfloor> \<le> x" "x < 2 powi (\<lfloor>log 2 x\<rfloor> + 1)"
    unfolding p by blast+
qed

lemma quantum_binade:
  assumes "2 powi k \<le> \<bar>x\<bar>" "\<bar>x\<bar> < 2 powi (k + 1)"
  shows "quantum x = max (k - 52) (- 1074)"
  using floor_log2_eq[OF assms] by (simp add: quantum_def)

lemma quantum_le:
  assumes "x \<noteq> 0" "\<bar>x\<bar> < 2 powi (e + 53)" "- 1074 \<le> e"
  shows "quantum x \<le> e"
proof -
  let ?k = "\<lfloor>log 2 \<bar>x\<bar>\<rfloor>"
  have "2 powi ?k \<le> \<bar>x\<bar>" using floor_log2_bounds(1)[of "\<bar>x\<bar>"] assms(1) by simp
  with assms(2) have lt: "(2::real) powi ?k < 2 powi (e + 53)" by simp
  have "?k < e + 53"
  proof (rule ccontr)
    assume "\<not> ?k < e + 53"
    then have "(2::real) powi (e + 53) \<le> 2 powi ?k"
      by (intro power_int_increasing) simp_all
    with lt show False by simp
  qed
  with assms(3) show ?thesis by (simp add: quantum_def)
qed

lemma quantum_ge: "- 1074 \<le> quantum x"
  by (simp add: quantum_def)

lemma fl64_exact:
  assumes "x = of_int m * 2 powi e" "\<bar>m\<bar> < 2 ^ 53" "- 1074 \<le> e" "\<bar>x\<bar> < threshold64"
  shows "fl64 x = Fin x"
proof (cases "x = 0")
  case True
  then show ?thesis by (simp add: fl64_def)
next
  case False
  have "\<bar>x\<bar> = of_int \<bar>m\<bar> * 2 powi e"
    by (simp add: assms(1) abs_mult)
  also have "\<dots> < 2 ^ 53 * 2 powi e"
    using assms(2) by (intro mult_strict_right_mono) (simp_all add: of_int_less_iff[where 'a = real, symmetric] del: of_int_less_iff)
  also have "\<dots> = 2 powi (e + 53)"
    by (simp add: power_int_add)
  finally have "quantum x \<le> e"
    using False assms(3) by (intro quantum_le)
  define q where "q = quantum x"
  with \<open>quantum x \<le> e\<close> obtain n where n: "e = q + int n"
    by (metis zle_iff_zadd)
  define N where "N = m * 2 ^ n"
  have xq: "x = of_int N * 2 powi q"
    by (simp add: assms(1) n power_int_add N_def)
  have "x / 2 powi q = of_int N"
    by (subst xq) simp
  then have "of_int (round_half_even (x / 2 powi q)) * 2 powi q = x"
    using xq by simp
  then show ?thesis using False assms(4) by (simp add: fl64_def Let_def q_def)
qed

lemma fl64_binade:
  assumes "2 powi k \<le> \<bar>x\<bar>" "\<bar>x\<bar> < 2 powi (k + 1)" "- 1022 \<le> k"
  shows "fl64 x =
     (let r = of_int (round_half_even (x / 2 powi (k - 52))) * 2 powi (k - 52)
      in if threshold64 \<le> \<bar>r\<bar> then (if x < 0 then NegInf else PosInf) else Fin r)"
proof -
  have "x \<noteq> 0" using assms(1) by (smt (verit) zero_less_power_int abs_zero)
  moreover have "quantum x = k - 52" using quantum_binade[OF assms(1,2)] assms(3) by simp
  ultimately show ?thesis by (simp add: fl64_def Let_def)
qed

lemma fl64_of_int:
  assumes "\<bar>m\<bar> < 2 ^ 53"
  shows "fl64 (of_int m) = Fin (of_int m)"
proof -
  have "\<bar>real_of_int m\<bar> < 2 ^ 53"
    using assms by (metis of_int_abs of_int_less_numeral_power_cancel_iff)
  then have "\<bar>real_of_int m\<bar> \<le> 2 ^ 64" by simp
  then have "\<bar>real_of_int m\<bar> < threshold64" by (rule below_threshold64)
  then show ?thesis using assms by (intro fl64_exact[where m = m and e = 0]) simp_all
qed


lemma round_half_even_error: "\<bar>of_int (round_half_even x) - x\<bar> \<le> 1/2"
proof -
  have "of_int \<lfloor>x\<rfloor> \<le> x" "x < of_int \<lfloor>x\<rfloor> + 1" by linarith+
  then show ?thesis by (auto simp: round_half_even_def Let_def)
qed

lemma fl64_scaled:
  assumes "2 ^ 52 \<le> \<bar>a\<bar>" "\<bar>a\<bar> < 2 ^ 53" "- 1074 \<le> e" "e \<le> 0"
  shows "fl64 (a * 2 powi e) = Fin (of_int (round_half_even a) * 2 powi e)"
proof -
  let ?u = "(2::real) powi e"
  have u: "0 < ?u" by simp
  have u1: "?u \<le> 1" using power_int_increasing[of e 0 "2::real"] assms(4) by simp
  have lo: "2 powi (e + 52) \<le> \<bar>a * ?u\<bar>"
    using assms(1) u by (simp add: power_int_add abs_mult mult.commute)
  have hi: "\<bar>a * ?u\<bar> < 2 powi (e + 52 + 1)"
    using assms(2) u by (simp add: power_int_add abs_mult mult.commute)
  have "\<bar>of_int (round_half_even a)\<bar> \<le> (2::real) ^ 53"
  proof -
    have "round_half_even a \<le> 2 ^ 53" using assms(2) by (intro round_half_even_le) simp
    moreover have "- (2 ^ 53) \<le> round_half_even a" using assms(2) by (intro round_half_even_ge) simp
    ultimately have "\<bar>round_half_even a\<bar> \<le> 2 ^ 53" by simp
    then show ?thesis by (metis of_int_abs of_int_le_numeral_power_cancel_iff)
  qed
  then have "\<bar>of_int (round_half_even a) * ?u\<bar> \<le> 2 ^ 53 * 1"
    unfolding abs_mult using u u1 by (intro mult_mono) simp_all
  then have "\<bar>of_int (round_half_even a) * ?u\<bar> \<le> 2 ^ 64" by simp
  then have nov: "\<not> threshold64 \<le> \<bar>of_int (round_half_even a) * ?u\<bar>"
    using below_threshold64 by fastforce
  have "fl64 (a * ?u) =
     (let r = of_int (round_half_even (a * ?u / 2 powi (e + 52 - 52))) * 2 powi (e + 52 - 52)
      in if threshold64 \<le> \<bar>r\<bar> then (if a * ?u < 0 then NegInf else PosInf) else Fin r)"
    using assms(3) by (intro fl64_binade[OF lo hi]) simp
  then show ?thesis using nov by (simp add: Let_def)
qed



subsection \<open>Rounding to binary32\<close>

lemma below_threshold32: "\<bar>x\<bar> \<le> 2 ^ 64 \<Longrightarrow> \<bar>x\<bar> < threshold32"
proof -
  have "(2::real) ^ 64 < 2 ^ 128" by (rule power_strict_increasing) simp_all
  then show "\<bar>x\<bar> \<le> 2 ^ 64 \<Longrightarrow> \<bar>x\<bar> < threshold32"
    unfolding threshold32_def by (rule order_le_less_trans[rotated])
qed

lemma quantum32_binade:
  assumes "2 powi k \<le> \<bar>x\<bar>" "\<bar>x\<bar> < 2 powi (k + 1)"
  shows "quantum32 x = max (k - 23) (- 149)"
  using floor_log2_eq[OF assms] by (simp add: quantum32_def)

lemma quantum32_le:
  assumes "x \<noteq> 0" "\<bar>x\<bar> < 2 powi (e + 24)" "- 149 \<le> e"
  shows "quantum32 x \<le> e"
proof -
  let ?k = "\<lfloor>log 2 \<bar>x\<bar>\<rfloor>"
  have "2 powi ?k \<le> \<bar>x\<bar>" using floor_log2_bounds(1)[of "\<bar>x\<bar>"] assms(1) by simp
  with assms(2) have lt: "(2::real) powi ?k < 2 powi (e + 24)" by simp
  have "?k < e + 24"
  proof (rule ccontr)
    assume "\<not> ?k < e + 24"
    then have "(2::real) powi (e + 24) \<le> 2 powi ?k"
      by (intro power_int_increasing) simp_all
    with lt show False by simp
  qed
  with assms(3) show ?thesis by (simp add: quantum32_def)
qed

lemma fl32_exact:
  assumes "x = of_int m * 2 powi e" "\<bar>m\<bar> < 2 ^ 24" "- 149 \<le> e" "\<bar>x\<bar> < threshold32"
  shows "fl32 x = Fin x"
proof (cases "x = 0")
  case True
  then show ?thesis by (simp add: fl32_def)
next
  case False
  have "\<bar>x\<bar> = of_int \<bar>m\<bar> * 2 powi e"
    by (simp add: assms(1) abs_mult)
  also have "\<dots> < 2 ^ 24 * 2 powi e"
    using assms(2) by (intro mult_strict_right_mono) (simp_all add: of_int_less_iff[where 'a = real, symmetric] del: of_int_less_iff)
  also have "\<dots> = 2 powi (e + 24)"
    by (simp add: power_int_add)
  finally have "quantum32 x \<le> e"
    using False assms(3) by (intro quantum32_le)
  define q where "q = quantum32 x"
  with \<open>quantum32 x \<le> e\<close> obtain n where n: "e = q + int n"
    by (metis zle_iff_zadd)
  define N where "N = m * 2 ^ n"
  have xq: "x = of_int N * 2 powi q"
    by (simp add: assms(1) n power_int_add N_def)
  have "x / 2 powi q = of_int N"
    by (subst xq) simp
  then have "of_int (round_half_even (x / 2 powi q)) * 2 powi q = x"
    using xq by simp
  then show ?thesis using False assms(4) by (simp add: fl32_def Let_def q_def)
qed

lemma fl32_binade:
  assumes "2 powi k \<le> \<bar>x\<bar>" "\<bar>x\<bar> < 2 powi (k + 1)" "- 126 \<le> k"
  shows "fl32 x =
     (let r = of_int (round_half_even (x / 2 powi (k - 23))) * 2 powi (k - 23)
      in if threshold32 \<le> \<bar>r\<bar> then (if x < 0 then NegInf else PosInf) else Fin r)"
proof -
  have "x \<noteq> 0" using assms(1) by (smt (verit) zero_less_power_int abs_zero)
  moreover have "quantum32 x = k - 23" using quantum32_binade[OF assms(1,2)] assms(3) by simp
  ultimately show ?thesis by (simp add: fl32_def Let_def)
qed

lemma fl32_scaled:
  assumes "2 ^ 23 \<le> \<bar>a\<bar>" "\<bar>a\<bar> < 2 ^ 24" "- 149 \<le> e" "e \<le> 0"
  shows "fl32 (a * 2 powi e) = Fin (of_int (round_half_even a) * 2 powi e)"
proof -
  let ?u = "(2::real) powi e"
  have u: "0 < ?u" by simp
  have u1: "?u \<le> 1" using power_int_increasing[of e 0 "2::real"] assms(4) by simp
  have lo: "2 powi (e + 23) \<le> \<bar>a * ?u\<bar>"
    using assms(1) u by (simp add: power_int_add abs_mult mult.commute)
  have hi: "\<bar>a * ?u\<bar> < 2 powi (e + 23 + 1)"
    using assms(2) u by (simp add: power_int_add abs_mult mult.commute)
  have "\<bar>of_int (round_half_even a)\<bar> \<le> (2::real) ^ 24"
  proof -
    have "round_half_even a \<le> 2 ^ 24" using assms(2) by (intro round_half_even_le) simp
    moreover have "- (2 ^ 24) \<le> round_half_even a" using assms(2) by (intro round_half_even_ge) simp
    ultimately have "\<bar>round_half_even a\<bar> \<le> 2 ^ 24" by simp
    then show ?thesis by (metis of_int_abs of_int_le_numeral_power_cancel_iff)
  qed
  then have "\<bar>of_int (round_half_even a) * ?u\<bar> \<le> 2 ^ 24 * 1"
    unfolding abs_mult using u u1 by (intro mult_mono) simp_all
  then have "\<bar>of_int (round_half_even a) * ?u\<bar> \<le> 2 ^ 64" by simp
  then have nov: "\<not> threshold32 \<le> \<bar>of_int (round_half_even a) * ?u\<bar>"
    using below_threshold32 by fastforce
  have "fl32 (a * ?u) =
     (let r = of_int (round_half_even (a * ?u / 2 powi (e + 23 - 23))) * 2 powi (e + 23 - 23)
      in if threshold32 \<le> \<bar>r\<bar> then (if a * ?u < 0 then NegInf else PosInf) else Fin r)"
    using assms(3) by (intro fl32_binade[OF lo hi]) simp
  then show ?thesis using nov by (simp add: Let_def)
qed

subsection \<open>Dividing by 32767 and multiplying back\<close>

lemma round_half_even_pow67: "round_half_even (2 ^ 67 / 32767) = 4503737070518400"
proof -
  have "(2::real) ^ 67 / 32767 = of_int 4503737070518400 + 128 / 32767" by simp
  also have "round_half_even \<dots> = 4503737070518400"
    by (rule round_half_even_near) simp
  finally show ?thesis .
qed

lemma binade_of_pos_int:
  fixes x :: int
  assumes "1 \<le> x" "x \<le> 32766"
  obtains k :: nat where "2 ^ k \<le> x" "x < 2 ^ (k + 1)" "k \<le> 14"
proof -
  have "\<exists>n. 2 ^ n \<le> nat x \<and> nat x < 2 ^ (n + 1)"
    using assms(1) by (intro ex_power_ivl1) simp_all
  then obtain k where k: "2 ^ k \<le> nat x" "nat x < 2 ^ (k + 1)" by blast
  have "nat x \<le> 32766" using assms(2) by simp
  with k(1) have "(2::nat) ^ k \<le> 32766" by (rule order_trans)
  then have "(2::nat) ^ k < 2 ^ 15" by simp
  then have "k < 15" by (simp only: power_strict_increasing_iff rel_simps)
  moreover have "2 ^ k \<le> x"
  proof -
    have "int (2 ^ k) \<le> int (nat x)" using k(1) by (simp only: of_nat_le_iff)
    then show ?thesis using assms(1) by simp
  qed
  moreover have "x < 2 ^ (k + 1)"
  proof -
    have "int (nat x) < int (2 ^ (k + 1))" using k(2) by (simp only: of_nat_less_iff)
    then show ?thesis using assms(1) by simp
  qed
  ultimately show ?thesis using that by simp
qed

lemma roundtrip_pos:
  fixes x :: int
  assumes "1 \<le> x" "x \<le> 32766"
  shows "\<exists>q. fl64 (of_int x / 32767) = Fin q \<and> 0 \<le> q \<and> q < 1 \<and> fl64 (q * 32767) = Fin (of_int x)"
proof -
  from assms obtain k :: nat where k: "2 ^ k \<le> x" "x < 2 ^ (k + 1)" "k \<le> 14"
    by (rule binade_of_pos_int)
  define e where "e = int k - 67"
  define u :: real where "u = 2 powi e"
  define P :: int where "P = 2 ^ (67 - k)"
  define N where "N = x * P"
  define M where "M = round_half_even (of_int N / 32767)"
  define D where "D = M * 32767 - N"
  have u: "0 < u" by (simp add: u_def)
  have e: "- 1074 \<le> e" "e \<le> 0" "e + 15 \<le> 0" using k(3) by (simp_all add: e_def)
  have Pk: "2 ^ k * P = 2 ^ 67"
    using k(3) by (simp add: P_def flip: power_add)
  have P53: "2 ^ 53 \<le> P"
    unfolding P_def using k(3) by (intro power_increasing) simp_all
  have Pu: "of_int P * u = 1"
  proof -
    have "real_of_int P = 2 powi (int (67 - k))" by (simp add: P_def)
    also have "int (67 - k) = - e" using k(3) by (simp add: e_def)
    finally show ?thesis by (simp add: u_def power_int_minus)
  qed
  have xu: "of_int x = of_int N * u"
    using Pu by (simp add: N_def mult.assoc)
  have Nlo: "2 ^ 67 \<le> N"
    using mult_right_mono[OF k(1), of P] P53 by (simp add: N_def Pk)
  have Nhi: "N + P \<le> 2 ^ 68"
  proof -
    have "x + 1 \<le> 2 ^ (k + 1)" using k(2) by simp
    from mult_right_mono[OF this, of P] P53 have "(x + 1) * P \<le> 2 * (2 ^ k * P)"
      by (simp add: mult.assoc)
    then show ?thesis by (simp add: N_def Pk distrib_right)
  qed
  have Nq: "N < 2 ^ 53 * 32767"
  proof (cases "k = 14")
    case True
    then have "P = 2 ^ 53" by (simp add: P_def)
    then show ?thesis using assms(2) by (simp add: N_def)
  next
    case False
    then have "67 - k \<ge> 54" using k(3) by simp
    then have "(2::int) ^ 54 \<le> P" unfolding P_def by (intro power_increasing) simp_all
    then show ?thesis using Nhi by simp
  qed
  have a1: "2 ^ 52 \<le> \<bar>real_of_int N / 32767\<bar>" "\<bar>real_of_int N / 32767\<bar> < 2 ^ 53"
  proof -
    have "(2::real) ^ 52 * 32767 \<le> 2 ^ 67" by simp
    also have "\<dots> \<le> real_of_int N" using Nlo 
      by (metis of_int_le_iff of_int_numeral of_int_power)
    finally show "2 ^ 52 \<le> \<bar>real_of_int N / 32767\<bar>" by (simp add: field_simps)
    have "real_of_int N < 2 ^ 53 * 32767" using Nq
      by (metis of_int_less_iff of_int_numeral of_int_power of_int_mult)
    moreover have "0 \<le> real_of_int N" using Nlo by simp
    ultimately show "\<bar>real_of_int N / 32767\<bar> < 2 ^ 53" by (simp add: field_simps)
  qed
  have q: "fl64 (of_int x / 32767) = Fin (of_int M * u)"
    using fl64_scaled[OF a1 e(1,2)] by (simp add: xu M_def u_def)
  have Dabs: "\<bar>D\<bar> \<le> 16383"
  proof -
    have "\<bar>of_int M - real_of_int N / 32767\<bar> \<le> 1/2"
      unfolding M_def by (rule round_half_even_error)
    then have "\<bar>of_int M * 32767 - real_of_int N\<bar> \<le> 32767 / 2"
      by (simp add: field_simps abs_le_iff)
    then have "\<bar>real_of_int D\<bar> \<le> 32767 / 2" by (simp add: D_def)
    then have "\<bar>real_of_int D\<bar> < 16384" by simp
    then have "\<bar>D\<bar> < 16384" by linarith
    then show ?thesis by simp
  qed
  have z: "of_int M * u * 32767 = of_int (N + D) * u"
    by (simp add: D_def)
  have M0: "0 \<le> M" unfolding M_def using Nlo by (intro round_half_even_ge) simp
  have q0: "0 \<le> of_int M * u" using M0 u by simp
  have q1: "of_int M * u < 1"
  proof -
    have "N + D < N + P" using Dabs P53 by simp
    then have "real_of_int (N + D) * u < real_of_int (N + P) * u"
      using u by (simp only: mult_less_cancel_right_pos of_int_less_iff)
    also have "\<dots> = of_int x + 1" using xu Pu by (simp add: distrib_right)
    also have "\<dots> \<le> 32767" using assms(2) by simp
    finally have "of_int M * u * 32767 < 32767" unfolding z .
    then show ?thesis by simp
  qed
  have rt: "fl64 (of_int (N + D) * u) = Fin (of_int x)"
  proof (cases "x = 2 ^ k")
    case True
    then have N: "N = 2 ^ 67" by (simp add: N_def Pk)
    have "M = 4503737070518400"
      unfolding M_def N using round_half_even_pow67 by simp
    then have D: "D = - 128" by (simp add: D_def N)
    define a :: real where "a = of_int (2 ^ 53) + (- 1 / 128)"
    have a: "2 ^ 52 \<le> \<bar>a\<bar>" "\<bar>a\<bar> < 2 ^ 53" by (simp_all add: a_def)
    have r: "round_half_even a = 2 ^ 53"
      unfolding a_def by (rule round_half_even_near) simp
    have "of_int (N + D) * u = a * 2 powi (e + 14)"
      by (simp add: N D a_def u_def power_int_add)
    moreover have "fl64 (a * 2 powi (e + 14)) = Fin (of_int (round_half_even a) * 2 powi (e + 14))"
      using e by (intro fl64_scaled[OF a]) simp_all
    moreover have "of_int (round_half_even a) * 2 powi (e + 14) = of_int N * u"
      by (simp add: r N u_def power_int_add)
    ultimately show ?thesis by (simp add: xu)
  next
    case False
    with k(1) have "2 ^ k + 1 \<le> x" by simp
    from mult_right_mono[OF this, of P] P53 have Nlo': "2 ^ 67 + P \<le> N"
      by (simp add: N_def Pk distrib_right)
    define X where "X = x * 2 ^ (52 - k)"
    have "67 - k = (52 - k) + 15" using k(3) by simp
    then have "P = 2 ^ (52 - k) * 2 ^ 15" unfolding P_def by (simp only: power_add)
    then have NX: "N = X * 2 ^ 15"
      by (simp add: N_def X_def)
    define a :: real where "a = of_int X + of_int D / 32768"
    have aN: "a = of_int (N + D) / 32768" by (simp add: a_def NX)
    have "2 ^ 67 \<le> N + D" "N + D < 2 ^ 68" using Nlo' Nhi Dabs P53 by simp_all
    then have "(2::real) ^ 67 \<le> of_int (N + D)" "real_of_int (N + D) < 2 ^ 68"
      by (simp_all only: numeral_power_le_of_int_cancel_iff of_int_less_numeral_power_cancel_iff)
    then have a: "2 ^ 52 \<le> \<bar>a\<bar>" "\<bar>a\<bar> < 2 ^ 53"
      unfolding aN by simp_all
    have "\<bar>real_of_int D\<bar> \<le> 16383" using Dabs by linarith
    then have r: "round_half_even a = X"
      unfolding a_def by (intro round_half_even_near) simp
    have "of_int (N + D) * u = a * 2 powi (e + 15)"
      by (simp add: aN u_def power_int_add)
    moreover have "fl64 (a * 2 powi (e + 15)) = Fin (of_int (round_half_even a) * 2 powi (e + 15))"
      using e by (intro fl64_scaled[OF a]) simp_all
    moreover have "of_int (round_half_even a) * 2 powi (e + 15) = of_int N * u"
      by (simp add: r NX u_def power_int_add)
    ultimately show ?thesis by (simp add: xu)
  qed
  from rt have "fl64 (of_int M * u * 32767) = Fin (of_int x)" by (simp only: z)
  with q q0 q1 show ?thesis by blast
qed

text \<open>
  The same quotient stored as binary32 before the multiplication: the product is exact
  and less than one away from the sample, on either side.
\<close>

lemma quotient_through_binary32:
  fixes v :: int
  assumes "1 \<le> v" "v \<le> 32766"
  shows "\<exists>q c. fl64 (of_int v / 32767) = Fin q \<and> fl32 q = Fin c \<and> 0 < c \<and> c < 1
           \<and> fl64 (c * 32767) = Fin (c * 32767)
           \<and> of_int v - 1 < c * 32767 \<and> c * 32767 < of_int v + 1"
proof -
  from assms obtain k :: nat where k: "2 ^ k \<le> v" "v < 2 ^ (k + 1)" "k \<le> 14"
    by (rule binade_of_pos_int)
  define e where "e = int k - 67"
  define u :: real where "u = 2 powi e"
  define P :: int where "P = 2 ^ (67 - k)"
  define N where "N = v * P"
  define M where "M = round_half_even (of_int N / 32767)"
  define D where "D = M * 32767 - N"
  define a :: real where "a = of_int M / 2 ^ 29"
  define M' where "M' = round_half_even a"
  define E where "E = M' * 2 ^ 29 * 32767 - N"
  define c :: real where "c = of_int M' * 2 powi (e + 29)"
  have u: "0 < u" by (simp add: u_def)
  have e: "- 1074 \<le> e" "e \<le> 0" "- 149 \<le> e + 29" "e + 29 \<le> 0" "e \<le> - 53"
    using k(3) by (simp_all add: e_def)
  have u53: "u \<le> 2 powi (- 53)"
    unfolding u_def using e(5) by (intro power_int_increasing) simp_all
  have Pk: "2 ^ k * P = 2 ^ 67"
    using k(3) by (simp add: P_def flip: power_add)
  have P53: "2 ^ 53 \<le> P"
    unfolding P_def using k(3) by (intro power_increasing) simp_all
  have Pu: "of_int P * u = 1"
  proof -
    have "real_of_int P = 2 powi (int (67 - k))" by (simp add: P_def)
    also have "int (67 - k) = - e" using k(3) by (simp add: e_def)
    finally show ?thesis by (simp add: u_def power_int_minus)
  qed
  have xu: "of_int v = of_int N * u"
    using Pu by (simp add: N_def mult.assoc)
  have Nlo: "2 ^ 67 \<le> N"
    using mult_right_mono[OF k(1), of P] P53 by (simp add: N_def Pk)
  have Nhi: "N \<le> 2 ^ 68 - 2 ^ 54"
  proof (cases "k = 14")
    case True
    then have "P = 2 ^ 53" by (simp add: P_def)
    then show ?thesis using assms(2) by (simp add: N_def)
  next
    case False
    then have "67 - k \<ge> 54" using k(3) by simp
    then have P54: "(2::int) ^ 54 \<le> P" unfolding P_def by (intro power_increasing) simp_all
    have "v + 1 \<le> 2 ^ (k + 1)" using k(2) by simp
    from mult_right_mono[OF this, of P] P53 have "(v + 1) * P \<le> 2 * (2 ^ k * P)"
      by (simp add: mult.assoc)
    then have "N + P \<le> 2 ^ 68" by (simp add: N_def Pk distrib_right)
    then show ?thesis using P54 by simp
  qed
  have a1: "2 ^ 52 \<le> \<bar>real_of_int N / 32767\<bar>" "\<bar>real_of_int N / 32767\<bar> < 2 ^ 53"
    and a1': "real_of_int N / 32767 \<le> of_int (2 ^ 53 - 1)"
  proof -
    have "(2::real) ^ 52 * 32767 \<le> 2 ^ 67" by simp
    also have "\<dots> \<le> real_of_int N" using Nlo
      by (simp only: numeral_power_le_of_int_cancel_iff)
    finally show "2 ^ 52 \<le> \<bar>real_of_int N / 32767\<bar>" by (simp add: field_simps)
    have "real_of_int N \<le> real_of_int (2 ^ 68 - 2 ^ 54)" using Nhi by (simp only: of_int_le_iff)
    then have Nr: "real_of_int N \<le> 2 ^ 68 - 2 ^ 54" by simp
    moreover have "0 \<le> real_of_int N" using Nlo by simp
    ultimately show "\<bar>real_of_int N / 32767\<bar> < 2 ^ 53" by (simp add: field_simps)
    show "real_of_int N / 32767 \<le> of_int (2 ^ 53 - 1)" using Nr by (simp add: field_simps)
  qed
  have q: "fl64 (of_int v / 32767) = Fin (of_int M * u)"
    using fl64_scaled[OF a1 e(1,2)] by (simp add: xu M_def u_def)
  have Mlo: "2 ^ 52 \<le> M"
  proof -
    have "real_of_int (2 ^ 52) \<le> real_of_int N / 32767" using a1(1) Nlo by simp
    then show ?thesis unfolding M_def by (rule round_half_even_ge)
  qed
  have Mhi: "M \<le> 2 ^ 53 - 1"
    unfolding M_def using a1' by (rule round_half_even_le)
  have Dabs: "\<bar>D\<bar> \<le> 16383"
  proof -
    have "\<bar>of_int M - real_of_int N / 32767\<bar> \<le> 1/2"
      unfolding M_def by (rule round_half_even_error)
    then have "\<bar>of_int M * 32767 - real_of_int N\<bar> \<le> 32767 / 2"
      by (simp add: field_simps abs_le_iff)
    then have "\<bar>real_of_int D\<bar> \<le> 32767 / 2" by (simp add: D_def)
    then have "\<bar>real_of_int D\<bar> < 16384" by simp
    then have "\<bar>D\<bar> < 16384" by linarith
    then show ?thesis by simp
  qed
  have a: "2 ^ 23 \<le> \<bar>a\<bar>" "\<bar>a\<bar> < 2 ^ 24"
  proof -
    have "real_of_int (2 ^ 52) \<le> real_of_int M" "real_of_int M \<le> real_of_int (2 ^ 53 - 1)"
      using Mlo Mhi by (simp_all only: of_int_le_iff)
    then have "2 ^ 52 \<le> real_of_int M" "real_of_int M < 2 ^ 53" by simp_all
    then show "2 ^ 23 \<le> \<bar>a\<bar>" "\<bar>a\<bar> < 2 ^ 24" by (simp_all add: a_def field_simps)
  qed
  have Mu: "of_int M * u = a * 2 powi (e + 29)"
    by (simp add: a_def u_def power_int_add)
  have c32: "fl32 (of_int M * u) = Fin c"
    unfolding Mu c_def M'_def using a e(3,4) by (rule fl32_scaled)
  have M'lo: "2 ^ 23 \<le> M'"
  proof -
    have "real_of_int (2 ^ 23) \<le> a" using a(1) Mlo by (simp add: a_def)
    then show ?thesis unfolding M'_def by (rule round_half_even_ge)
  qed
  have M'hi: "M' \<le> 2 ^ 24"
  proof -
    have "a \<le> real_of_int (2 ^ 24)" using a(2) by simp
    then show ?thesis unfolding M'_def by (rule round_half_even_le)
  qed
  have Eabs: "\<bar>E\<bar> < 2 ^ 43"
  proof -
    have "\<bar>of_int M' - a\<bar> \<le> 1/2" unfolding M'_def by (rule round_half_even_error)
    then have "\<bar>of_int M' * 2 ^ 29 - real_of_int M\<bar> \<le> 2 ^ 28"
      by (simp add: a_def field_simps abs_le_iff)
    then have "real_of_int \<bar>M' * 2 ^ 29 - M\<bar> \<le> 2 ^ 28" by simp
    then have "\<bar>M' * 2 ^ 29 - M\<bar> \<le> 2 ^ 28"
      by (simp only: of_int_le_numeral_power_cancel_iff)
    moreover have "E = 32767 * (M' * 2 ^ 29 - M) + D" by (simp add: E_def D_def)
    ultimately show ?thesis using Dabs by simp
  qed
  have z: "c * 32767 = of_int v + of_int E * u"
  proof -
    have "c = of_int (M' * 2 ^ 29) * u" by (simp add: c_def u_def power_int_add)
    then have "c * 32767 = of_int (N + E) * u" by (simp add: E_def)
    then show ?thesis by (simp add: xu distrib_right)
  qed
  have Eu: "\<bar>of_int E * u\<bar> < 1"
  proof -
    have "real_of_int \<bar>E\<bar> < 2 ^ 43"
      using Eabs by (simp only: of_int_less_numeral_power_cancel_iff)
    then have "\<bar>real_of_int E\<bar> < 2 ^ 43" by simp
    then have "\<bar>real_of_int E\<bar> * u \<le> 2 ^ 43 * 2 powi (- 53)"
      using u u53 by (intro mult_mono) simp_all
    also have "\<dots> < 1" by (simp add: power_int_minus)
    finally show ?thesis using u by (simp add: abs_mult)
  qed
  have zlo: "of_int v - 1 < c * 32767" and zhi: "c * 32767 < of_int v + 1"
    using Eu unfolding z by (simp_all add: abs_less_iff)
  have c0: "0 < c" using M'lo by (simp add: c_def)
  have c1: "c < 1"
  proof -
    have "c * 32767 < 32767" using zhi assms(2) by simp
    then show ?thesis by simp
  qed
  have ex: "fl64 (c * 32767) = Fin (c * 32767)"
  proof (rule fl64_exact[where m = "M' * 32767" and e = "e + 29"])
    show "c * 32767 = of_int (M' * 32767) * 2 powi (e + 29)" by (simp add: c_def)
    show "\<bar>M' * 32767\<bar> < 2 ^ 53" using M'lo M'hi by simp
    show "- 1074 \<le> e + 29" using e(3) by simp
    have "\<bar>c * 32767\<bar> \<le> 2 ^ 64" using c0 c1 by simp
    then show "\<bar>c * 32767\<bar> < threshold64" by (rule below_threshold64)
  qed
  show ?thesis using q c32 c0 c1 ex zlo zhi by blast
qed

section \<open>Properties of the encoder\<close>

lemma js_truncate_bounds:
  assumes "- 32768 \<le> x" "x \<le> 32767"
  shows "- 32768 \<le> js_truncate x" "js_truncate x \<le> 32767"
proof -
  have "\<lfloor>- x\<rfloor> \<le> 32768" "\<lfloor>x\<rfloor> \<le> 32767"
    using assms by (simp_all add: floor_le_iff)
  moreover have "x < 0 \<Longrightarrow> 0 \<le> \<lfloor>- x\<rfloor>" "\<not> x < 0 \<Longrightarrow> 0 \<le> \<lfloor>x\<rfloor>"
    by simp_all
  ultimately show "- 32768 \<le> js_truncate x" "js_truncate x \<le> 32767"
    unfolding js_truncate_def by (cases "x < 0"; simp; linarith)+
qed

lemma sint_int16_of_int:
  assumes "- 32768 \<le> k" "k \<le> 32767"
  shows "sint (word_of_int k :: int16) = k"
proof -
  have "signed_take_bit 15 k = k"
    using assms by (simp add: signed_take_bit_int_eq_self_iff)
  then show ?thesis by (simp add: sint_sbintrunc')
qed

subsection \<open>The loops in closed form\<close>

lemma take_two_updates:
  assumes "n + 2 \<le> length xs"
  shows "take (n + 2) (xs[n := a, n + 1 := b]) = take n xs @ [a, b]"
proof -
  have "take (Suc (Suc n)) (xs[n := a, Suc n := b]) = take (Suc n) (xs[n := a, Suc n := b]) @ [b]"
    using assms by (simp add: take_Suc_conv_app_nth)
  also have "take (Suc n) (xs[n := a, Suc n := b]) = take (Suc n) (xs[n := a])"
    by simp
  also have "\<dots> = take n xs @ [a]"
    using assms by (simp add: take_Suc_conv_app_nth)
  finally show ?thesis by simp
qed

lemma frames_step: "i < len \<Longrightarrow>
  frames inputL inputR i len =
    [encode_sample (f32_at inputL i), encode_sample (f32_at inputR i)] @ frames inputL inputR (i + 1) len"
  by (simp add: frames_def upt_conv_Cons)

lemma frames_done: "\<not> i < len \<Longrightarrow> frames inputL inputR i len = []"
  by (simp add: frames_def)

lemma length_frames: "length (frames inputL inputR i len) = 2 * (len - i)"
  by (simp add: frames_def length_concat o_def sum_list_triv)

lemma process_loop_unfold:
  "i < len \<Longrightarrow> process_loop inputL inputR len i pcmIndex pcmData =
     process_loop inputL inputR len (i + 1) (pcmIndex + 2)
       (pcmData[pcmIndex := encode_sample (f32_at inputL i),
                pcmIndex + 1 := encode_sample (f32_at inputR i)])"
  by (subst process_loop.simps) (simp add: Let_def encode_sample_def)

lemma process_loop_frames:
  "length pcmData = 2 * len \<Longrightarrow> i \<le> len \<Longrightarrow>
   process_loop inputL inputR len i (2 * i) pcmData = take (2 * i) pcmData @ frames inputL inputR i len"
proof (induction "len - i" arbitrary: i pcmData)
  case 0
  then have "\<not> i < len" by simp
  with 0 show ?case
    by (subst process_loop.simps) (simp add: frames_done)
next
  case (Suc n)
  then have lt: "i < len" by simp
  let ?a = "encode_sample (f32_at inputL i)"
  let ?b = "encode_sample (f32_at inputR i)"
  let ?pcm = "pcmData[2 * i := ?a, 2 * i + 1 := ?b]"
  have "process_loop inputL inputR len (i + 1) (2 * (i + 1)) ?pcm =
      take (2 * (i + 1)) ?pcm @ frames inputL inputR (i + 1) len"
    using Suc.hyps(2) Suc.prems lt by (intro Suc.hyps(1)) simp_all
  moreover have "take (2 * (i + 1)) ?pcm = take (2 * i) pcmData @ [?a, ?b]"
    using take_two_updates[of "2 * i" pcmData ?a ?b] lt Suc.prems by simp
  ultimately show ?case
    using process_loop_unfold[OF lt, of inputL inputR "2 * i" pcmData]
      frames_step[OF lt, of inputL inputR] by simp
qed

lemma nth_frames:
  assumes "j < len"
  shows "frames inputL inputR 0 len ! (2 * j) = encode_sample (f32_at inputL j)"
    and "frames inputL inputR 0 len ! (2 * j + 1) = encode_sample (f32_at inputR j)"
proof -
  have "frames inputL inputR 0 len ! (2 * j) = encode_sample (f32_at inputL j)
      \<and> frames inputL inputR 0 len ! (2 * j + 1) = encode_sample (f32_at inputR j)"
    using assms
  proof (induction len)
    case 0
    then show ?case by simp
  next
    case (Suc len)
    have split: "frames inputL inputR 0 (Suc len) =
        frames inputL inputR 0 len @ [encode_sample (f32_at inputL len), encode_sample (f32_at inputR len)]"
      by (simp add: frames_def)
    show ?case
    proof (cases "j < len")
      case True
      with Suc.IH show ?thesis
        by (simp add: split nth_append length_frames)
    next
      case False
      with Suc.prems have "j = len" by simp
      then show ?thesis
        by (simp add: split nth_append length_frames)
    qed
  qed
  then show "frames inputL inputR 0 len ! (2 * j) = encode_sample (f32_at inputL j)"
    and "frames inputL inputR 0 len ! (2 * j + 1) = encode_sample (f32_at inputR j)"
    by simp_all
qed

lemma nth_frames_Suc:
  "j < len \<Longrightarrow> frames inputL inputR 0 len ! Suc (2 * j) = encode_sample (f32_at inputR j)"
  using nth_frames(2)[of j len inputL inputR] by simp

lemma onaudioprocess_loop_unfold:
  "i < len \<Longrightarrow> onaudioprocess_loop inputL inputR len i pcmIndex pcmData =
     onaudioprocess_loop inputL inputR len (i + 1) (pcmIndex + 2)
       (pcmData[pcmIndex := encode_sample (f32_at inputL i),
                pcmIndex + 1 := encode_sample (f32_at inputR i)])"
  by (subst onaudioprocess_loop.simps) (simp add: Let_def encode_sample_def)

lemma onaudioprocess_loop_frames:
  "length pcmData = 2 * len \<Longrightarrow> i \<le> len \<Longrightarrow>
   onaudioprocess_loop inputL inputR len i (2 * i) pcmData =
     take (2 * i) pcmData @ frames inputL inputR i len"
proof (induction "len - i" arbitrary: i pcmData)
  case 0
  then have "\<not> i < len" by simp
  with 0 show ?case
    by (subst onaudioprocess_loop.simps) (simp add: frames_done)
next
  case (Suc n)
  then have lt: "i < len" by simp
  let ?a = "encode_sample (f32_at inputL i)"
  let ?b = "encode_sample (f32_at inputR i)"
  let ?pcm = "pcmData[2 * i := ?a, 2 * i + 1 := ?b]"
  have "onaudioprocess_loop inputL inputR len (i + 1) (2 * (i + 1)) ?pcm =
      take (2 * (i + 1)) ?pcm @ frames inputL inputR (i + 1) len"
    using Suc.hyps(2) Suc.prems lt by (intro Suc.hyps(1)) simp_all
  moreover have "take (2 * (i + 1)) ?pcm = take (2 * i) pcmData @ [?a, ?b]"
    using take_two_updates[of "2 * i" pcmData ?a ?b] lt Suc.prems by simp
  ultimately show ?case
    using onaudioprocess_loop_unfold[OF lt, of inputL inputR "2 * i" pcmData]
      frames_step[OF lt, of inputL inputR] by simp
qed

lemma PCMProcessor_process_frames':
  "PCMProcessor_process ((inputL # rest) # others) =
     Some (frames inputL (right_channel inputL rest) 0 (length inputL))"
  by (simp add: PCMProcessor_process_def Let_def right_channel_def
      process_loop_frames[where i = 0, simplified])

lemma PCMProcessor_process_None:
  "PCMProcessor_process inputs = None \<longleftrightarrow> inputs = [] \<or> hd inputs = []"
  by (simp add: PCMProcessor_process_def Let_def split: list.splits)

lemma onaudioprocess_pcm_frames:
  "onaudioprocess_pcm (inputL # rest) =
     (if length inputL \<noteq> length (right_channel inputL rest) then Inr None
      else Inr (Some (frames inputL (right_channel inputL rest) 0 (length inputL))))"
  by (cases rest)
     (simp_all add: onaudioprocess_pcm_def getChannelData_def Let_def right_channel_def
      onaudioprocess_loop_frames[where i = 0, simplified])

lemma onaudioprocess_pcm_Nil: "onaudioprocess_pcm [] = Inl IndexSizeError"
  by (simp add: onaudioprocess_pcm_def getChannelData_def)

subsection \<open>One sample\<close>

lemma clamp_Fin: "Math_max (Fin (- 1)) (Math_min (Fin 1) (Fin s)) = Fin (max (- 1) (min 1 s))"
  by (simp add: Math_max_def Math_min_def max_def min_def)

lemma binary32_one: "binary32 1" "binary32 (- 1)"
proof -
  have "\<bar>1::int\<bar> < 2 ^ 24 \<and> - 149 \<le> (0::int) \<and> (1::real) = of_int 1 * 2 powi 0" by simp
  then show "binary32 1" unfolding binary32_def by blast
  have "\<bar>- 1::int\<bar> < 2 ^ 24 \<and> - 149 \<le> (0::int) \<and> (- 1::real) = of_int (- 1) * 2 powi 0" by simp
  then show "binary32 (- 1)" unfolding binary32_def by blast
qed

lemma binary32_clamp: "binary32 s \<Longrightarrow> binary32 (max (- 1) (min 1 s))"
  by (auto simp: max_def min_def binary32_one)

text \<open>
  The products of the encoder are exact: a binary32 value in \<open>[-1, 1]\<close> times 32768 or
  32767 has a significand of at most 39 bits, so the multiplication does not round.
\<close>

lemma binary32_scale_exact:
  assumes "binary32 c" "\<bar>c\<bar> \<le> 1" "\<bar>n\<bar> \<le> 32768"
  shows "fl64 (c * of_int n) = Fin (c * of_int n)"
proof -
  from assms(1) obtain m e :: int where m: "\<bar>m\<bar> < 2 ^ 24" and e: "- 149 \<le> e"
    and c: "c = of_int m * 2 powi e"
    unfolding binary32_def by blast
  have "\<bar>m * n\<bar> = \<bar>m\<bar> * \<bar>n\<bar>" by (rule abs_mult)
  also have "\<dots> \<le> \<bar>m\<bar> * 32768" using assms(3) by (intro mult_left_mono) simp_all
  also have "\<dots> < 2 ^ 24 * 32768" using m by simp
  finally have mn: "\<bar>m * n\<bar> < 2 ^ 53" by simp
  have "\<bar>c * of_int n\<bar> = \<bar>c\<bar> * \<bar>real_of_int n\<bar>" by (rule abs_mult)
  also have "\<dots> \<le> 1 * 32768"
    using assms(2,3) by (intro mult_mono) simp_all
  finally have "\<bar>c * of_int n\<bar> \<le> 2 ^ 64" by simp
  then have small: "\<bar>c * of_int n\<bar> < threshold64" by (rule below_threshold64)
  show ?thesis
  proof (rule fl64_exact[where m = "m * n" and e = e])
    show "c * of_int n = of_int (m * n) * 2 powi e" by (simp add: c)
    show "\<bar>m * n\<bar> < 2 ^ 53" by (rule mn)
    show "- 1074 \<le> e" using e by simp
    show "\<bar>c * of_int n\<bar> < threshold64" by (rule small)
  qed
qed

lemma encode_sample_word:
  assumes "binary32 s"
  shows "encode_sample (Fin s) = word_of_int (clamp_scale_truncate s)"
proof -
  define c where "c = max (- 1) (min 1 s)"
  define p where "p = (if c < 0 then c * 32768 else c * 32767)"
  have c: "\<bar>c\<bar> \<le> 1" by (simp add: c_def abs_le_iff)
  have b: "binary32 c" unfolding c_def using assms by (rule binary32_clamp)
  have "fl64 (c * of_int 32768) = Fin (c * of_int 32768)"
    "fl64 (c * of_int 32767) = Fin (c * of_int 32767)"
    using b c by (intro binary32_scale_exact; simp)+
  then have "encode_sample (Fin s) = word_of_int (js_truncate p)"
    by (simp add: encode_sample_def clamp_Fin c_def[symmetric] p_def Let_def)
  also have "js_truncate p = (if p < 0 then \<lceil>p\<rceil> else \<lfloor>p\<rfloor>)"
    by (simp add: js_truncate_def ceiling_def)
  finally show ?thesis
    unfolding clamp_scale_truncate_def Let_def p_def c_def .
qed

lemma clamp_scale_truncate_bounds:
  "- 32768 \<le> clamp_scale_truncate s" "clamp_scale_truncate s \<le> 32767"
proof -
  define c where "c = max (- 1) (min 1 s)"
  define p where "p = (if c < 0 then c * 32768 else c * 32767)"
  have c: "- 1 \<le> c" "c \<le> 1" by (simp_all add: c_def)
  have p: "- 32768 \<le> p" "p \<le> 32767" using c by (auto simp: p_def)
  have "clamp_scale_truncate s = js_truncate p"
    unfolding clamp_scale_truncate_def Let_def p_def c_def
    by (simp add: js_truncate_def ceiling_def)
  then show "- 32768 \<le> clamp_scale_truncate s" "clamp_scale_truncate s \<le> 32767"
    using js_truncate_bounds[OF p] by simp_all
qed

lemma encode_sample_Fin:
  "binary32 s \<Longrightarrow> sint (encode_sample (Fin s)) = clamp_scale_truncate s"
  by (simp add: encode_sample_word sint_int16_of_int clamp_scale_truncate_bounds)

lemma encode_sample_special:
  "encode_sample NaN = 0" "sint (encode_sample PosInf) = 32767" "sint (encode_sample NegInf) = - 32768"
proof -
  show "encode_sample NaN = 0"
    by (simp add: encode_sample_def Math_max_def Math_min_def)
  have "encode_sample PosInf = encode_sample (Fin 1)" "encode_sample NegInf = encode_sample (Fin (- 1))"
    by (simp_all add: encode_sample_def Math_max_def Math_min_def)
  then show "sint (encode_sample PosInf) = 32767" "sint (encode_sample NegInf) = - 32768"
    by (simp_all add: encode_sample_Fin binary32_one clamp_scale_truncate_def)
qed

text \<open>Some binary32 values, for the examples.\<close>

lemma binary32_examples:
  "binary32 (1/2)" "binary32 (- (1/2))" "binary32 2" "binary32 (- 3)" "binary32 (3/4)"
  "binary32 (- (3/4))" "binary32 (- (1/65536))"
proof -
  have r: "binary32 (of_int m * 2 powi e)" if "\<bar>m\<bar> < 2 ^ 24" "- 149 \<le> e" for m e :: int
    using that unfolding binary32_def by blast
  show "binary32 (1/2)" using r[of 1 "- 1"] by simp
  show "binary32 (- (1/2))" using r[of "- 1" "- 1"] by simp
  show "binary32 2" using r[of 2 0] by simp
  show "binary32 (- 3)" using r[of "- 3" 0] by simp
  show "binary32 (3/4)" using r[of 3 "- 2"] by simp
  show "binary32 (- (3/4))" using r[of "- 3" "- 2"] by simp
  show "binary32 (- (1/65536))" using r[of "- 1" "- 16"] by simp
qed

section \<open>The claims on the encoder\<close>

text \<open>
  Claim C1. For a finite sample of either channel, at any frame of a block, the 16-bit
  value that either capture path emits for it is the sample clamped to \<open>[-1, 1]\<close>,
  multiplied by 32768 if the clamped value is negative and by 32767 otherwise, and
  truncated towards zero. The samples are the binary32 values of a \<open>Float32Array\<close>. (An
  infinite sample is clamped like a finite one, and a NaN sample, which no clamp is
  defined on, is emitted as 0: \<open>encode_sample_special\<close>.)
\<close>

theorem encoder_clamp_scale_truncate:
  assumes "inputR = right_channel inputL rest" "length inputR = length inputL"
    and "i < length inputL" "inputL ! i = Fin l" "inputR ! i = Fin r"
    and "binary32 l" "binary32 r"
  shows "(\<exists>out. PCMProcessor_process ((inputL # rest) # others) = Some out
            \<and> sint (out ! (2 * i)) = clamp_scale_truncate l
            \<and> sint (out ! (2 * i + 1)) = clamp_scale_truncate r)
       \<and> (\<exists>out. onaudioprocess_pcm (inputL # rest) = Inr (Some out)
            \<and> sint (out ! (2 * i)) = clamp_scale_truncate l
            \<and> sint (out ! (2 * i + 1)) = clamp_scale_truncate r)"
proof -
  let ?out = "frames inputL inputR 0 (length inputL)"
  have L: "sint (?out ! (2 * i)) = clamp_scale_truncate l"
    using assms by (simp add: nth_frames nth_frames_Suc f32_at_def encode_sample_Fin)
  have R: "sint (?out ! (2 * i + 1)) = clamp_scale_truncate r"
    using assms by (simp add: nth_frames nth_frames_Suc f32_at_def encode_sample_Fin)
  have "PCMProcessor_process ((inputL # rest) # others) = Some ?out"
    using assms(1) by (simp add: PCMProcessor_process_frames')
  moreover have "onaudioprocess_pcm (inputL # rest) = Inr (Some ?out)"
    using assms(1,2) by (simp add: onaudioprocess_pcm_frames)
  ultimately show ?thesis using L R by simp
qed

theorem encoder_clamp_scale_truncate_witness:
  "(\<exists>out. PCMProcessor_process [[[Fin (1/2)], [Fin (- (1/65536))]]] = Some out
       \<and> sint (out ! 0) = 16383 \<and> sint (out ! 1) = 0)
   \<and> (\<exists>out. onaudioprocess_pcm [[Fin (1/2)], [Fin (- (1/65536))]] = Inr (Some out)
       \<and> sint (out ! 0) = 16383 \<and> sint (out ! 1) = 0)"
  using encoder_clamp_scale_truncate[of "[Fin (- (1/65536))]" "[Fin (1/2)]"
      "[[Fin (- (1/65536))]]" 0 "1/2" "- (1/65536)" "[]"]
  by (simp add: right_channel_def clamp_scale_truncate_def binary32_examples ceiling_def)

text \<open>
  Claim C3. A buffer that either capture path emits for a block of \<open>N\<close> frames has
  exactly \<open>2 * N\<close> samples, so an even number of them, with the sample of the left
  channel of frame \<open>i\<close> at index \<open>2 * i\<close> and that of the right channel at \<open>2 * i + 1\<close>; for
  a block that has a frame the buffer is not empty.
\<close>

theorem pcm_buffer_interleaved:
  "(PCMProcessor_process inputs = Some out \<longrightarrow>
      (\<exists>inputL rest others. inputs = (inputL # rest) # others
         \<and> length out = 2 * length inputL \<and> even (length out) \<and> (inputL \<noteq> [] \<longrightarrow> out \<noteq> [])
         \<and> (\<forall>i<length inputL.
               out ! (2 * i) = encode_sample (inputL ! i)
             \<and> out ! (2 * i + 1) = encode_sample (f32_at (right_channel inputL rest) i))))
   \<and> (onaudioprocess_pcm inputBuffer = Inr (Some out) \<longrightarrow>
      (\<exists>inputL rest. inputBuffer = inputL # rest
         \<and> length out = 2 * length inputL \<and> even (length out) \<and> (inputL \<noteq> [] \<longrightarrow> out \<noteq> [])
         \<and> (\<forall>i<length inputL.
               out ! (2 * i) = encode_sample (inputL ! i)
             \<and> out ! (2 * i + 1) = encode_sample (right_channel inputL rest ! i))))"
proof (intro conjI impI)
  assume a: "PCMProcessor_process inputs = Some out"
  then obtain inputL rest others where i: "inputs = (inputL # rest) # others"
    by (auto simp: PCMProcessor_process_def split: list.splits)
  with a have out: "out = frames inputL (right_channel inputL rest) 0 (length inputL)"
    by (simp add: PCMProcessor_process_frames')
  have "length out = 2 * length inputL" by (simp add: out length_frames)
  moreover from this have "even (length out)" "inputL \<noteq> [] \<longrightarrow> out \<noteq> []" by auto
  moreover have "\<forall>i<length inputL.
               out ! (2 * i) = encode_sample (inputL ! i)
             \<and> out ! (2 * i + 1) = encode_sample (f32_at (right_channel inputL rest) i)"
    by (simp add: out nth_frames nth_frames_Suc f32_at_def)
  ultimately show "\<exists>inputL rest others. inputs = (inputL # rest) # others
         \<and> length out = 2 * length inputL \<and> even (length out) \<and> (inputL \<noteq> [] \<longrightarrow> out \<noteq> [])
         \<and> (\<forall>i<length inputL.
               out ! (2 * i) = encode_sample (inputL ! i)
             \<and> out ! (2 * i + 1) = encode_sample (f32_at (right_channel inputL rest) i))"
    using i by blast
next
  assume a: "onaudioprocess_pcm inputBuffer = Inr (Some out)"
  then obtain inputL rest where i: "inputBuffer = inputL # rest"
    by (cases inputBuffer) (simp_all add: onaudioprocess_pcm_Nil)
  with a have len: "length (right_channel inputL rest) = length inputL"
    and out: "out = frames inputL (right_channel inputL rest) 0 (length inputL)"
    by (simp_all add: onaudioprocess_pcm_frames split: if_splits)
  have "length out = 2 * length inputL" by (simp add: out length_frames)
  moreover from this have "even (length out)" "inputL \<noteq> [] \<longrightarrow> out \<noteq> []" by auto
  moreover have "\<forall>i<length inputL.
               out ! (2 * i) = encode_sample (inputL ! i)
             \<and> out ! (2 * i + 1) = encode_sample (right_channel inputL rest ! i)"
    using len by (simp add: out nth_frames nth_frames_Suc f32_at_def)
  ultimately show "\<exists>inputL rest. inputBuffer = inputL # rest
         \<and> length out = 2 * length inputL \<and> even (length out) \<and> (inputL \<noteq> [] \<longrightarrow> out \<noteq> [])
         \<and> (\<forall>i<length inputL.
               out ! (2 * i) = encode_sample (inputL ! i)
             \<and> out ! (2 * i + 1) = encode_sample (right_channel inputL rest ! i))"
    using i by blast
qed

theorem pcm_buffer_interleaved_witness:
  "PCMProcessor_process [[[Fin (1/2)], [Fin 2]]] = Some [16383, 32767]
   \<and> onaudioprocess_pcm [[Fin (1/2)], [Fin 2]] = Inr (Some [16383, 32767])
   \<and> length [16383, 32767 :: int16] = 2 * length [Fin (1/2)]"
  using pcm_buffer_interleaved[of "[[[Fin (1/2)], [Fin 2]]]" "[16383, 32767]" "[[Fin (1/2)], [Fin 2]]"]
  by (simp add: PCMProcessor_process_frames' onaudioprocess_pcm_frames right_channel_def
      frames_def f32_at_def encode_sample_word binary32_examples clamp_scale_truncate_def)

text \<open>
  Claim C4. When the capture source has a single channel, both paths write, for every
  frame, the encoding of the same source sample into the left slot and into the right
  slot of the buffer.
\<close>

theorem mono_duplicated_to_stereo:
  assumes "i < length channel"
  shows "(\<exists>out. PCMProcessor_process ([channel] # others) = Some out
            \<and> out ! (2 * i) = encode_sample (channel ! i)
            \<and> out ! (2 * i + 1) = encode_sample (channel ! i))
       \<and> (\<exists>out. onaudioprocess_pcm [channel] = Inr (Some out)
            \<and> out ! (2 * i) = encode_sample (channel ! i)
            \<and> out ! (2 * i + 1) = encode_sample (channel ! i))"
  using assms
  by (simp add: PCMProcessor_process_frames' onaudioprocess_pcm_frames right_channel_def
      nth_frames nth_frames_Suc f32_at_def)

theorem mono_duplicated_to_stereo_witness:
  "1 < length [Fin (1/2), Fin (- 1)]
   \<and> (\<exists>out. PCMProcessor_process [[[Fin (1/2), Fin (- 1)]]] = Some out \<and> out ! 2 = out ! 3)
   \<and> (\<exists>out. onaudioprocess_pcm [[Fin (1/2), Fin (- 1)]] = Inr (Some out) \<and> out ! 2 = out ! 3)"
  using mono_duplicated_to_stereo[of 1 "[Fin (1/2), Fin (- 1)]" "[]"] by auto

text \<open>
  Claim C8. On two channels of equal length, the buffer that \<open>onaudioprocess\<close> hands to
  \<open>send\<close> is the buffer that \<open>PCMProcessor.process\<close> posts.
\<close>

theorem capture_paths_agree:
  assumes "length inputL = length inputR"
  shows "onaudioprocess_pcm [inputL, inputR] = Inr (PCMProcessor_process ([inputL, inputR] # others))"
  using assms
  by (simp add: PCMProcessor_process_frames' onaudioprocess_pcm_frames right_channel_def)

theorem capture_paths_agree_witness:
  "length [Fin (1/2)] = length [Fin (2::real)]
   \<and> onaudioprocess_pcm [[Fin (1/2)], [Fin 2]] = Inr (PCMProcessor_process [[[Fin (1/2)], [Fin 2]]])"
  using capture_paths_agree[of "[Fin (1/2)]" "[Fin 2]" "[]"] by simp

section \<open>The round trip through the decoder\<close>

lemma binary32_int_scaled:
  assumes "\<bar>v\<bar> < 2 ^ 24" "- 149 \<le> e"
  shows "binary32 (of_int v * 2 powi e)"
  using assms unfolding binary32_def by blast

lemma sint_int16_range: "- 32768 \<le> sint (x :: int16)" "sint (x :: int16) \<le> 32767"
  using sint_ge[of x] sint_lt[of x] by simp_all

lemma decode_encode_negative:
  fixes v :: int
  assumes "- 32768 \<le> v" "v < 0"
  shows "encode_sample (js_div_by (Fin (of_int v)) 32768) = word_of_int v"
proof -
  have q: "real_of_int v / 32768 = of_int v * 2 powi (- 15)"
    by (simp add: power_int_minus field_simps)
  have "\<bar>real_of_int v / 32768\<bar> \<le> 2 ^ 64" using assms by simp
  then have "\<bar>real_of_int v / 32768\<bar> < threshold64" by (rule below_threshold64)
  then have "fl64 (real_of_int v / 32768) = Fin (real_of_int v / 32768)"
    using assms by (intro fl64_exact[where m = v and e = "- 15"] q) simp_all
  moreover have "binary32 (real_of_int v / 32768)"
    unfolding q using assms by (intro binary32_int_scaled) simp_all
  moreover have "clamp_scale_truncate (real_of_int v / 32768) = v"
    using assms by (simp add: clamp_scale_truncate_def Let_def max_def min_def)
  ultimately show ?thesis by (simp add: encode_sample_word)
qed

lemma decode_encode_positive:
  fixes v :: int
  assumes "0 \<le> v" "v \<le> 32767"
  shows "encode_sample (js_div_by (Fin (of_int v)) 32767) = word_of_int v"
proof -
  consider "v = 0" | "v = 32767" | "1 \<le> v" "v \<le> 32766" using assms by linarith
  then show ?thesis
  proof cases
    case 1
    have "binary32 0" using binary32_int_scaled[of 0 0] by simp
    then show ?thesis using 1
      by (simp add: fl64_def encode_sample_word clamp_scale_truncate_def)
  next
    case 2
    have "fl64 1 = Fin 1" using fl64_of_int[of 1] by simp
    then show ?thesis using 2
      by (simp add: encode_sample_word binary32_one clamp_scale_truncate_def)
  next
    case 3
    from roundtrip_pos[OF 3] obtain q where q: "fl64 (of_int v / 32767) = Fin q"
      "0 \<le> q" "q < 1" "fl64 (q * 32767) = Fin (of_int v)" by blast
    have "Math_max (Fin (- 1)) (Math_min (Fin 1) (Fin q)) = Fin q"
      using q(2,3) by (simp add: clamp_Fin)
    then have "encode_sample (Fin q) = ToInt16 (Fin (of_int v))"
      using q(2,4) by (simp add: encode_sample_def)
    then show ?thesis using q(1) 3 by (simp add: js_truncate_def)
  qed
qed

lemma decode_encode_sample: "encode_sample (decode_sample x) = x"
proof (cases "sint x < 0")
  case True
  then show ?thesis
    using decode_encode_negative[of "sint x"] sint_int16_range[of x]
    by (simp add: decode_sample_def)
next
  case False
  then show ?thesis
    using decode_encode_positive[of "sint x"] sint_int16_range[of x]
    by (simp add: decode_sample_def)
qed

text \<open>
  Handed to the encoder as the binary64 Numbers they are, the decoded samples encode to
  the samples they came from. No capture block holds such Numbers: a block is a
  \<open>Float32Array\<close>.
\<close>

lemma frames_Cons:
  "frames (a # inputL) (b # inputR) (Suc i) (Suc len) = frames inputL inputR i len"
proof -
  have s: "f32_at (c # xs) (Suc j) = f32_at xs j" for c xs j
    by (simp add: f32_at_def)
  have "[Suc i..<Suc len] = map Suc [i..<len]" by (simp only: map_Suc_upt)
  then show ?thesis unfolding frames_def by (simp only: map_map o_def s)
qed

lemma frames_Cons0:
  "frames (a # inputL) (b # inputR) 0 (Suc len) =
     encode_sample a # encode_sample b # frames inputL inputR 0 len"
  using frames_step[of 0 "Suc len" "a # inputL" "b # inputR"]
  by (simp add: frames_Cons f32_at_def)

subsection \<open>Through a \<open>Float32Array\<close>\<close>

lemma fl32_small_int_scaled:
  assumes "\<bar>v\<bar> \<le> 32768" "- 149 \<le> e" "e \<le> 0"
  shows "fl32 (of_int v * 2 powi e) = Fin (of_int v * 2 powi e)"
proof -
  have "(2::real) powi e \<le> 1" using power_int_increasing[of e 0 "2::real"] assms(3) by simp
  moreover have "\<bar>real_of_int v\<bar> \<le> 32768" using assms(1) by linarith
  ultimately have "\<bar>real_of_int v\<bar> * 2 powi e \<le> 32768 * 1"
    by (intro mult_mono) simp_all
  then have "\<bar>real_of_int v * 2 powi e\<bar> \<le> 2 ^ 64" by (simp add: abs_mult)
  then have "\<bar>real_of_int v * 2 powi e\<bar> < threshold32" by (rule below_threshold32)
  then show ?thesis using assms by (intro fl32_exact[where m = v and e = e]) simp_all
qed

lemma decode_sample_int:
  "decode_sample x =
     (if sint x < 0 then js_div_by (Fin (of_int (sint x))) 32768
      else js_div_by (Fin (of_int (sint x))) 32767)"
  by (simp only: decode_sample_def)

lemma through_binary32_negative:
  fixes v :: int
  assumes "- 32768 \<le> v" "v < 0"
  shows "encode_sample (Float32Array_store (js_div_by (Fin (of_int v)) 32768)) = word_of_int v"
proof -
  have q: "real_of_int v / 32768 = of_int v * 2 powi (- 15)"
    by (simp add: power_int_minus field_simps)
  have "\<bar>real_of_int v / 32768\<bar> \<le> 2 ^ 64" using assms by simp
  then have "\<bar>real_of_int v / 32768\<bar> < threshold64" by (rule below_threshold64)
  then have "fl64 (real_of_int v / 32768) = Fin (real_of_int v / 32768)"
    using assms by (intro fl64_exact[where m = v and e = "- 15"] q) simp_all
  then have d: "js_div_by (Fin (of_int v)) 32768 = Fin (real_of_int v / 32768)" by simp
  have "fl32 (real_of_int v / 32768) = Fin (real_of_int v / 32768)"
    unfolding q using assms by (intro fl32_small_int_scaled) simp_all
  then have "Float32Array_store (js_div_by (Fin (of_int v)) 32768) = js_div_by (Fin (of_int v)) 32768"
    unfolding d by simp
  then show ?thesis using decode_encode_negative[OF assms] by simp
qed

lemma through_binary32_zero_max:
  fixes v :: int
  assumes "v = 0 \<or> v = 32767"
  shows "encode_sample (Float32Array_store (js_div_by (Fin (of_int v)) 32767)) = word_of_int v"
proof -
  have one: "fl64 1 = Fin 1" using fl64_of_int[of 1] by simp
  have "fl32 (of_int 1 * 2 powi 0) = Fin (of_int 1 * 2 powi 0)"
    by (rule fl32_small_int_scaled) simp_all
  then have one32: "fl32 1 = Fin 1" by simp
  have "Float32Array_store (js_div_by (Fin (of_int v)) 32767) = js_div_by (Fin (of_int v)) 32767"
  proof (cases "v = 0")
    case True
    then show ?thesis by (simp add: fl64_def fl32_def)
  next
    case False
    with assms have "v = 32767" by simp
    then show ?thesis by (simp add: one one32)
  qed
  moreover have "encode_sample (js_div_by (Fin (of_int v)) 32767) = word_of_int v"
    using assms by (intro decode_encode_positive) auto
  ultimately show ?thesis by simp
qed

lemma through_binary32_positive:
  fixes v :: int
  assumes "1 \<le> v" "v \<le> 32766"
  shows "\<exists>n. encode_sample (Float32Array_store (js_div_by (Fin (of_int v)) 32767)) = word_of_int n
           \<and> (n = v \<or> n = v - 1)"
proof -
  from quotient_through_binary32[OF assms] obtain q c
    where q: "fl64 (of_int v / 32767) = Fin q" and c: "fl32 q = Fin c"
      and c01: "0 < c" "c < 1" and ex: "fl64 (c * 32767) = Fin (c * 32767)"
      and z: "of_int v - 1 < c * 32767" "c * 32767 < of_int v + 1"
    by blast
  have "Math_max (Fin (- 1)) (Math_min (Fin 1) (Fin c)) = Fin c"
    using c01 by (simp add: clamp_Fin)
  then have "encode_sample (Fin c) = ToInt16 (Fin (c * 32767))"
    using c01 ex by (simp add: encode_sample_def)
  moreover have "0 \<le> c * 32767" using c01 by simp
  ultimately have r: "encode_sample (Float32Array_store (js_div_by (Fin (of_int v)) 32767)) =
      word_of_int \<lfloor>c * 32767\<rfloor>"
    using q c by (simp add: js_truncate_def)
  have "v - 1 \<le> \<lfloor>c * 32767\<rfloor>"
  proof -
    have "real_of_int (v - 1) \<le> c * 32767" using z(1) by simp
    then show ?thesis by (simp only: le_floor_iff)
  qed
  moreover have "\<lfloor>c * 32767\<rfloor> < v + 1"
  proof -
    have "c * 32767 < real_of_int (v + 1)" using z(2) by simp
    then show ?thesis by (simp only: floor_less_iff)
  qed
  ultimately have "\<lfloor>c * 32767\<rfloor> = v \<or> \<lfloor>c * 32767\<rfloor> = v - 1" by linarith
  with r show ?thesis by blast
qed

lemma reencode_within_one:
  "(sint (reencode x) = sint x \<or> sint (reencode x) = sint x - 1)
   \<and> (sint x \<le> 0 \<or> sint x = 32767 \<longrightarrow> reencode x = x)"
proof -
  define v where "v = sint x"
  have x: "word_of_int v = x" by (simp add: v_def)
  have range: "- 32768 \<le> v" "v \<le> 32767"
    using sint_int16_range[of x] by (simp_all add: v_def)
  have re: "reencode x =
     (if v < 0 then encode_sample (Float32Array_store (js_div_by (Fin (of_int v)) 32768))
      else encode_sample (Float32Array_store (js_div_by (Fin (of_int v)) 32767)))"
    unfolding reencode_def decode_sample_int v_def by simp
  consider "v < 0" | "v = 0 \<or> v = 32767" | "1 \<le> v" "v \<le> 32766"
    using range(2) by linarith
  then have "(sint (reencode x) = v \<or> sint (reencode x) = v - 1)
   \<and> (v \<le> 0 \<or> v = 32767 \<longrightarrow> reencode x = x)"
  proof cases
    case 1
    then have "reencode x = x"
      using through_binary32_negative[OF range(1) 1] by (simp add: re x)
    then show ?thesis by (simp add: v_def)
  next
    case 2
    then have "reencode x = x"
      using through_binary32_zero_max[OF 2] by (auto simp: re x)
    then show ?thesis by (simp add: v_def)
  next
    case 3
    from through_binary32_positive[OF 3] obtain n
      where n: "encode_sample (Float32Array_store (js_div_by (Fin (of_int v)) 32767)) = word_of_int n"
        "n = v \<or> n = v - 1" by blast
    have "reencode x = word_of_int n" using 3 n(1) by (simp add: re)
    moreover have "- 32768 \<le> n" "n \<le> 32767" using n(2) 3 by auto
    ultimately have "sint (reencode x) = n" by (simp add: sint_int16_of_int)
    then show ?thesis using n(2) 3 by auto
  qed
  then show ?thesis unfolding v_def .
qed

text \<open>Sample 1: the binary32 value of the quotient lies below it, and comes out as 0.\<close>

lemma reencode_one: "reencode 1 = 0"
proof -
  have eq: "(1::real) / 32767 = 2 ^ 67 / 32767 * 2 powi (- 67)"
    by (simp add: power_int_minus)
  have "fl64 (2 ^ 67 / 32767 * 2 powi (- 67)) =
      Fin (of_int (round_half_even (2 ^ 67 / 32767)) * 2 powi (- 67))"
    by (rule fl64_scaled) simp_all
  then have "fl64 (2 ^ 67 / 32767 * 2 powi (- 67)) = Fin (of_int 4503737070518400 * 2 powi (- 67))"
    by (simp only: round_half_even_pow67)
  then have q: "fl64 (1 / 32767) = Fin (4503737070518400 * 2 powi (- 67))"
    by (subst eq) (simp only: of_int_numeral)
  define a :: real where "a = of_int 8388864 + 32769 / 4194304"
  have a: "2 ^ 23 \<le> \<bar>a\<bar>" "\<bar>a\<bar> < 2 ^ 24" by (simp_all add: a_def)
  have ra: "round_half_even a = 8388864"
    unfolding a_def by (rule round_half_even_near) simp
  have e1: "(4503737070518400::real) * 2 powi (- 67) = a * 2 powi (- 38)"
    by (simp add: a_def power_int_minus)
  have e2: "fl32 (a * 2 powi (- 38)) = Fin (of_int (round_half_even a) * 2 powi (- 38))"
    using a by (rule fl32_scaled) simp_all
  define c :: real where "c = 8388864 * 2 powi (- 38)"
  have c: "fl32 (4503737070518400 * 2 powi (- 67)) = Fin c"
    by (simp only: e1 e2 ra of_int_numeral c_def)
  have c01: "0 < c" "c < 1" by (simp_all add: c_def power_int_minus)
  have z01: "0 \<le> c * 32767" "c * 32767 < 1" by (simp_all add: c_def power_int_minus)
  have "\<bar>c * 32767\<bar> \<le> 2 ^ 64" using z01 by simp
  then have "\<bar>c * 32767\<bar> < threshold64" by (rule below_threshold64)
  then have ex: "fl64 (c * 32767) = Fin (c * 32767)"
    by (intro fl64_exact[where m = "8388864 * 32767" and e = "- 38"]) (simp_all add: c_def)
  have fz: "\<lfloor>c * 32767\<rfloor> = 0" using z01 by (simp only: floor_eq_iff) simp
  have "Math_max (Fin (- 1)) (Math_min (Fin 1) (Fin c)) = Fin c"
    using c01 by (simp add: clamp_Fin)
  then have "encode_sample (Fin c) = ToInt16 (Fin (c * 32767))"
    using c01 ex by (simp add: encode_sample_def)
  then have "encode_sample (Fin c) = 0"
    using z01(1) fz by (simp add: js_truncate_def)
  moreover have "decode_sample 1 = fl64 (1 / 32767)"
    by (simp add: decode_sample_def)
  ultimately show ?thesis using q c by (simp add: reencode_def)
qed

lemma deinterleave_reencode:
  assumes "even (length frame)" "deinterleave frame = (inputL, inputR)"
  shows "length inputR = length inputL \<and> 2 * length inputL = length frame
       \<and> frames (Float32Array_from inputL) (Float32Array_from inputR) 0 (length inputL) =
           map reencode frame"
  using assms
proof (induction frame arbitrary: inputL inputR rule: deinterleave.induct)
  case (1 l r frame)
  obtain ls rs where d: "deinterleave frame = (ls, rs)" by (cases "deinterleave frame")
  with "1.prems" have LR: "inputL = decode_sample l # ls" "inputR = decode_sample r # rs"
    by simp_all
  from "1.prems"(1) have "even (length frame)" by simp
  from "1.IH"[OF this d] show ?case
    by (simp add: LR frames_Cons0 Float32Array_from_def reencode_def)
qed (simp_all add: frames_def Float32Array_from_def)

lemma decode_blocks:
  assumes "decode frame = Some (inputL, inputR)"
  shows "PCMProcessor_process ([Float32Array_from inputL, Float32Array_from inputR] # others) =
           Some (map reencode frame)"
    and "onaudioprocess_pcm [Float32Array_from inputL, Float32Array_from inputR] =
           Inr (Some (map reencode frame))"
proof -
  from assms have "even (length frame)" "deinterleave frame = (inputL, inputR)"
    by (simp_all add: decode_def split: if_splits)
  from deinterleave_reencode[OF this]
  have l: "length inputR = length inputL"
    and f: "frames (Float32Array_from inputL) (Float32Array_from inputR) 0 (length inputL) =
           map reencode frame"
    by simp_all
  show "PCMProcessor_process ([Float32Array_from inputL, Float32Array_from inputR] # others) =
           Some (map reencode frame)"
    using f by (simp add: PCMProcessor_process_frames' right_channel_def Float32Array_from_def)
  show "onaudioprocess_pcm [Float32Array_from inputL, Float32Array_from inputR] =
           Inr (Some (map reencode frame))"
    using f l by (simp add: onaudioprocess_pcm_frames right_channel_def Float32Array_from_def)
qed

text \<open>
  Claim C2, as amended. Decoding a valid frame, storing the two channels as the
  \<open>Float32Array\<close>s that the capture paths read and encoding them again, on either path,
  gives a frame of the same length in which every sample that is negative, zero or
  32767 is the sample of the frame, and every other sample is the sample of the frame
  or one less.
\<close>

theorem decode_store_encode_within_one:
  assumes "decode frame = Some (inputL, inputR)"
  shows "\<exists>out. PCMProcessor_process ([Float32Array_from inputL, Float32Array_from inputR] # others)
             = Some out
     \<and> onaudioprocess_pcm [Float32Array_from inputL, Float32Array_from inputR] = Inr (Some out)
     \<and> length out = length frame
     \<and> (\<forall>j<length frame.
           (sint (out ! j) = sint (frame ! j) \<or> sint (out ! j) = sint (frame ! j) - 1)
         \<and> (sint (frame ! j) \<le> 0 \<or> sint (frame ! j) = 32767 \<longrightarrow> out ! j = frame ! j))"
proof -
  have "\<forall>j<length frame.
           (sint (map reencode frame ! j) = sint (frame ! j)
            \<or> sint (map reencode frame ! j) = sint (frame ! j) - 1)
         \<and> (sint (frame ! j) \<le> 0 \<or> sint (frame ! j) = 32767 \<longrightarrow> map reencode frame ! j = frame ! j)"
    using reencode_within_one by simp
  then show ?thesis using decode_blocks(1)[OF assms, of others] decode_blocks(2)[OF assms] by simp
qed

theorem decode_store_encode_within_one_witness:
  "decode [5, - 2, - 32768, 32767] =
     Some ([decode_sample 5, decode_sample (- 32768)], [decode_sample (- 2), decode_sample 32767])
   \<and> (\<exists>out. PCMProcessor_process
          [[Float32Array_from [decode_sample 5, decode_sample (- 32768)],
            Float32Array_from [decode_sample (- 2), decode_sample 32767]]] = Some out
        \<and> length out = 4 \<and> (sint (out ! 0) = 5 \<or> sint (out ! 0) = 4)
        \<and> out ! 1 = - 2 \<and> out ! 2 = - 32768 \<and> out ! 3 = 32767)"
proof -
  have d: "decode [5, - 2, - 32768, 32767] =
     Some ([decode_sample 5, decode_sample (- 32768)], [decode_sample (- 2), decode_sample 32767])"
    by (simp add: decode_def)
  from decode_store_encode_within_one[OF d, of "[]"] obtain out
    where p: "PCMProcessor_process
          [[Float32Array_from [decode_sample 5, decode_sample (- 32768)],
            Float32Array_from [decode_sample (- 2), decode_sample 32767]]] = Some out"
      and l: "length out = length [5, - 2, - 32768, 32767 :: int16]"
      and a: "\<forall>j<length [5, - 2, - 32768, 32767 :: int16].
           (sint (out ! j) = sint ([5, - 2, - 32768, 32767 :: int16] ! j)
            \<or> sint (out ! j) = sint ([5, - 2, - 32768, 32767 :: int16] ! j) - 1)
         \<and> (sint ([5, - 2, - 32768, 32767 :: int16] ! j) \<le> 0
              \<or> sint ([5, - 2, - 32768, 32767 :: int16] ! j) = 32767
            \<longrightarrow> out ! j = [5, - 2, - 32768, 32767 :: int16] ! j)"
    by blast
  from a[rule_format, of 0] have "sint (out ! 0) = 5 \<or> sint (out ! 0) = 4" by simp
  moreover from a[rule_format, of 1] have "out ! 1 = - 2" by simp
  moreover from a[rule_format, of 2] have "out ! 2 = - 32768" by simp
  moreover from a[rule_format, of 3] have "out ! 3 = 32767" by simp
  ultimately show ?thesis using d p l by simp
qed

text \<open>
  Claim C2 as it is written fails: the frame of the two samples 1 and 1 is valid and
  comes back, on either path, as the frame of 0 and 0.
\<close>

theorem roundtrip_loses_one_counterexample:
  "decode [1, 1] = Some ([decode_sample 1], [decode_sample 1])
   \<and> PCMProcessor_process
        [[Float32Array_from [decode_sample 1], Float32Array_from [decode_sample 1]]] = Some [0, 0]
   \<and> onaudioprocess_pcm
        [Float32Array_from [decode_sample 1], Float32Array_from [decode_sample 1]] =
      Inr (Some [0, 0])"
proof -
  have d: "decode [1, 1] = Some ([decode_sample 1], [decode_sample 1])"
    by (simp add: decode_def)
  from decode_blocks(1)[OF d, of "[]"] decode_blocks(2)[OF d] d show ?thesis
    by (simp add: reencode_one)
qed


section \<open>The claims on the hook\<close>

lemma example_open_eq: "example_open = 
  \<lparr>isConnected = True, isRecording = False, rms = JNum (Fin (- 100)), spectrum = JArr [],
      panning = JNum (Fin 0), lastRecording = None, sockets = [\<lparr>readyState = OPEN, sent = [Text (init_message (Fin 44100) (Fin 2))]\<rparr>], 
     socketRef = Some 0,
      audioContextRef = None\<rparr>"
  by (simp add: example_open_def initial_state_def connectWebSocket_def socket_open_def
     or_unchanged_def ws_onopen_def set_readyState_def send_on_def ws_send_def current_sampleRate_def current_channels_def)

subsection \<open>The first message of a socket\<close>

lemma is_init_init_message [simp]: "is_init (Text (init_message sr ch))"
  by (simp add: init_message_def)

lemma sockets_inv_update:
  assumes "sockets_inv st" "socket_inv ws"
  shows "sockets_inv (st\<lparr>sockets := (sockets st)[i := ws]\<rparr>)"
  using assms set_update_subset_insert[of "sockets st" i ws]
  by (auto simp: sockets_inv_def)

lemma sockets_inv_nth: "sockets_inv st \<Longrightarrow> i < length (sockets st) \<Longrightarrow> socket_inv (sockets st ! i)"
  by (simp add: sockets_inv_def)

lemma ws_send_inv:
  assumes "socket_inv ws" "ws_send ws d = Inr ws'"
  shows "socket_inv ws'"
  using assms by (cases "readyState ws") (auto simp: ws_send_def socket_inv_def)

lemma send_on_inv:
  assumes "sockets_inv st" "send_on i d st = Inr st'"
  shows "sockets_inv st'"
proof -
  from assms(2) obtain ws' where i: "i < length (sockets st)"
    and ws': "ws_send (sockets st ! i) d = Inr ws'"
    and st': "st' = st\<lparr>sockets := (sockets st)[i := ws']\<rparr>"
    by (auto simp: send_on_def split: if_splits sum.splits)
  from ws_send_inv[OF sockets_inv_nth[OF assms(1) i] ws'] show ?thesis
    unfolding st' by (rule sockets_inv_update[OF assms(1)])
qed

lemma send_current_inv:
  assumes "sockets_inv st" "send_current d st = Inr st'"
  shows "sockets_inv st'"
  using assms by (auto simp: send_current_def split: option.splits intro: send_on_inv)

lemma sockets_inv_fields [simp]:
  "sockets_inv (st\<lparr>isConnected := a\<rparr>) = sockets_inv st"
  "sockets_inv (st\<lparr>isRecording := b\<rparr>) = sockets_inv st"
  "sockets_inv (st\<lparr>rms := v\<rparr>) = sockets_inv st"
  "sockets_inv (st\<lparr>spectrum := v\<rparr>) = sockets_inv st"
  "sockets_inv (st\<lparr>panning := v\<rparr>) = sockets_inv st"
  "sockets_inv (st\<lparr>lastRecording := l\<rparr>) = sockets_inv st"
  "sockets_inv (st\<lparr>socketRef := r\<rparr>) = sockets_inv st"
  "sockets_inv (st\<lparr>audioContextRef := c\<rparr>) = sockets_inv st"
  by (simp_all add: sockets_inv_def)

lemma connectWebSocket_inv: "sockets_inv st \<Longrightarrow> sockets_inv (connectWebSocket st)"
  by (auto simp: connectWebSocket_def sockets_inv_def socket_inv_def)

lemma cleanup_inv: "sockets_inv st \<Longrightarrow> sockets_inv (cleanup st)"
proof (cases "socketRef st")
  case None
  then show "sockets_inv st \<Longrightarrow> sockets_inv (cleanup st)" by (simp add: cleanup_def)
next
  case (Some i)
  assume inv: "sockets_inv st"
  show "sockets_inv (cleanup st)"
  proof (cases "i < length (sockets st)")
    case True
    have "socket_inv (ws_close (sockets st ! i))"
      using sockets_inv_nth[OF inv True]
      by (cases "readyState (sockets st ! i)") (auto simp: ws_close_def socket_inv_def)
    then show ?thesis using Some True inv by (simp add: cleanup_def sockets_inv_update)
  next
    case False
    then show ?thesis using Some inv by (simp add: cleanup_def)
  qed
qed

lemma websocket_updates: "(ws :: websocket)\<lparr>readyState := r, sent := s\<rparr> = \<lparr>readyState = r, sent = s\<rparr>"
  by (cases ws) simp

lemma ws_onopen_opened:
  assumes "i < length (sockets st)"
  shows "ws_onopen i (set_readyState i OPEN st) =
     Inr (st\<lparr>isConnected := True,
             sockets := (sockets st)[i := \<lparr>readyState = OPEN,
               sent = sent (sockets st ! i) @
                 [Text (init_message (current_sampleRate st) (current_channels st))]\<rparr>]\<rparr>)"
  using assms
  by (simp add: ws_onopen_def set_readyState_def send_on_def ws_send_def Let_def
      current_sampleRate_def current_channels_def websocket_updates)

lemma ws_onmessage_sockets:
  "ws_onmessage parsed st = Inr st' \<Longrightarrow> sockets st' = sockets st"
  by (auto simp: ws_onmessage_def Let_def split: option.splits sum.splits if_splits)

lemma or_unchanged_inv:
  assumes "sockets_inv st" "\<And>st'. r = Inr st' \<Longrightarrow> sockets_inv st'"
  shows "sockets_inv (or_unchanged st r)"
  using assms by (cases r) (simp_all add: or_unchanged_def)

lemma step_inv: "sockets_inv st \<Longrightarrow> sockets_inv (step e st)"
proof (cases e)
  case Mount
  then show "sockets_inv st \<Longrightarrow> sockets_inv (step e st)" by (simp add: connectWebSocket_inv)
next
  case Unmount
  then show "sockets_inv st \<Longrightarrow> sockets_inv (step e st)" by (simp add: cleanup_inv)
next
  case (WsOpened i)
  assume inv: "sockets_inv st"
  show "sockets_inv (step e st)"
  proof (cases "i < length (sockets st) \<and> readyState (sockets st ! i) = CONNECTING")
    case True
    then have "sent (sockets st ! i) = []"
      using sockets_inv_nth[OF inv, of i] by (simp add: socket_inv_def)
    then have "socket_inv \<lparr>readyState = OPEN,
               sent = sent (sockets st ! i) @
                 [Text (init_message (current_sampleRate st) (current_channels st))]\<rparr>"
      by (simp add: socket_inv_def)
    from sockets_inv_update[OF inv this, of i] show ?thesis
      using True WsOpened by (simp add: ws_onopen_opened or_unchanged_def sockets_inv_def)
  next
    case False
    then show ?thesis using WsOpened inv by auto
  qed
next
  case (WsClosed i)
  assume inv: "sockets_inv st"
  show "sockets_inv (step e st)"
  proof (cases "i < length (sockets st) \<and> readyState (sockets st ! i) \<noteq> CLOSED")
    case True
    have "socket_inv ((sockets st ! i)\<lparr>readyState := CLOSED\<rparr>)"
      using sockets_inv_nth[OF inv, of i] True by (simp add: socket_inv_def)
    from sockets_inv_update[OF inv this, of i] show ?thesis
      using True WsClosed by (simp add: ws_onclose_def set_readyState_def)
  next
    case False
    then show ?thesis using WsClosed inv by auto
  qed
next
  case (WsMessage i parsed)
  assume inv: "sockets_inv st"
  have "sockets_inv (or_unchanged st (ws_onmessage parsed st))"
    using inv
  proof (rule or_unchanged_inv)
    fix st' assume "ws_onmessage parsed st = Inr st'"
    from ws_onmessage_sockets[OF this] inv show "sockets_inv st'"
      by (simp add: sockets_inv_def)
  qed
  then show "sockets_inv (step e st)" using WsMessage inv by simp
next
  case CallStartAudio
  then show "sockets_inv st \<Longrightarrow> sockets_inv (step e st)"
    by (simp add: startAudio_begin_def connectWebSocket_inv)
next
  case (AudioContextCreated ctx)
  then show "sockets_inv st \<Longrightarrow> sockets_inv (step e st)"
    by (simp add: startAudio_context_def)
next
  case (AudioProcess buf)
  assume inv: "sockets_inv st"
  have "sockets_inv (or_unchanged st (onaudioprocess buf st))"
    using inv by (rule or_unchanged_inv)
      (auto simp: inv onaudioprocess_def split: if_splits sum.splits option.splits
        intro: send_current_inv[OF inv])
  then show "sockets_inv (step e st)" using AudioProcess by simp
next
  case (WorkletQuantum inputs)
  assume inv: "sockets_inv st"
  have "sockets_inv (or_unchanged st (port_onmessage d st))" for d
    using inv by (rule or_unchanged_inv)
      (auto simp: inv port_onmessage_def split: if_splits intro: send_current_inv[OF inv])
  then show "sockets_inv (step e st)" using WorkletQuantum inv by (simp split: option.splits)
next
  case CallStartRecording
  assume inv: "sockets_inv st"
  have "sockets_inv (or_unchanged st (startRecording st))"
    using inv by (rule or_unchanged_inv)
      (auto simp: inv startRecording_def Let_def split: if_splits sum.splits
        dest: send_current_inv[OF inv])
  then show "sockets_inv (step e st)" using CallStartRecording by simp
next
  case CallStopRecording
  assume inv: "sockets_inv st"
  have "sockets_inv (or_unchanged st (stopRecording st))"
    using inv by (rule or_unchanged_inv)
      (auto simp: inv stopRecording_def split: if_splits intro: send_current_inv[OF inv])
  then show "sockets_inv (step e st)" using CallStopRecording by simp
next
  case (CallSetSettings g f c t)
  assume inv: "sockets_inv st"
  have "sockets_inv (or_unchanged st (setSettings g f c t st))"
    using inv by (rule or_unchanged_inv)
      (auto simp: inv setSettings_def split: if_splits intro: send_current_inv[OF inv])
  then show "sockets_inv (step e st)" using CallSetSettings by simp
qed

lemma run_inv: "sockets_inv st \<Longrightarrow> sockets_inv (run evs st)"
  by (induction evs arbitrary: st) (simp_all add: step_inv)

lemma initial_inv: "sockets_inv initial_state"
  by (simp add: sockets_inv_def initial_state_def)

text \<open>
  Claim C5. In every run of the hook, a socket that connects has sent nothing, and when
  it opens the hook sends on it an \<open>init\<close> message with the fields \<open>sample_rate\<close> and
  \<open>channels\<close>; an open socket has sent something, and the first message that a socket
  has sent is an \<open>init\<close> message.
\<close>

theorem init_is_first_message:
  assumes "st = run evs initial_state" "i < length (sockets st)"
  shows "(readyState (sockets st ! i) = CONNECTING \<longrightarrow>
            sockets (step (WsOpened i) st) ! i =
              \<lparr>readyState = OPEN,
               sent = [Text (JObj [(''action'', JStr ''init''),
                                   (''sample_rate'', JSON_number (current_sampleRate st)),
                                   (''channels'', JSON_number (current_channels st))])]\<rparr>)
       \<and> (readyState (sockets st ! i) = OPEN \<longrightarrow> sent (sockets st ! i) \<noteq> [])
       \<and> (sent (sockets st ! i) \<noteq> [] \<longrightarrow> is_init (hd (sent (sockets st ! i))))"
proof -
  have inv: "sockets_inv st"
    unfolding assms(1) by (rule run_inv[OF initial_inv])
  note s = sockets_inv_nth[OF inv assms(2)]
  have "readyState (sockets st ! i) = CONNECTING \<longrightarrow>
            sockets (step (WsOpened i) st) ! i =
              \<lparr>readyState = OPEN,
               sent = [Text (JObj [(''action'', JStr ''init''),
                                   (''sample_rate'', JSON_number (current_sampleRate st)),
                                   (''channels'', JSON_number (current_channels st))])]\<rparr>"
    using s assms(2)
    by (simp add: ws_onopen_opened or_unchanged_def socket_inv_def init_message_def)
  then show ?thesis using s by (simp add: socket_inv_def)
qed

theorem init_is_first_message_witness:
  "sockets (run [Mount] initial_state) ! 0 = \<lparr>readyState = CONNECTING, sent = []\<rparr>
   \<and> sockets (step (WsOpened 0) (run [Mount] initial_state)) ! 0 =
       \<lparr>readyState = OPEN,
        sent = [Text (JObj [(''action'', JStr ''init''), (''sample_rate'', JNum (Fin 44100)),
                            (''channels'', JNum (Fin 2))])]\<rparr>"
  using init_is_first_message[of "run [Mount] initial_state" "[Mount]" 0]
  by (simp add: initial_state_def connectWebSocket_def socket_open_def current_sampleRate_def
      current_channels_def)

text \<open>
  Claim C6. \<open>setSettings\<close> on an open socket appends to what that socket has sent exactly
  one message, with the action \<open>set_params\<close> and the fields \<open>gain\<close>, \<open>filter_enabled\<close>,
  \<open>cutoff_freq\<close> and \<open>integration_time\<close> holding the arguments as \<open>JSON.stringify\<close>
  writes them, and changes nothing else; on a socket that is not open it sends nothing
  and leaves the state as it is.
\<close>

theorem setSettings_sends_set_params:
  "(socket_open st \<longrightarrow>
      (\<exists>i. socketRef st = Some i \<and> i < length (sockets st) \<and>
         setSettings gain filter_enabled cutoff integrationTime st =
           Inr (st\<lparr>sockets := (sockets st)[i := (sockets st ! i)\<lparr>sent := sent (sockets st ! i) @
             [Text (JObj [(''action'', JStr ''set_params''), (''gain'', JSON_number gain),
                          (''filter_enabled'', JBool filter_enabled),
                          (''cutoff_freq'', JSON_number cutoff),
                          (''integration_time'', JSON_number integrationTime)])]\<rparr>]\<rparr>)))
   \<and> (\<not> socket_open st \<longrightarrow> setSettings gain filter_enabled cutoff integrationTime st = Inr st)"
  by (auto simp: setSettings_def socket_open_def send_current_def send_on_def ws_send_def
      set_params_message_def split: option.splits)

theorem setSettings_sends_set_params_witness:
  "socket_open example_open \<and> \<not> socket_open initial_state
   \<and> setSettings (Fin 6) True (Fin 1000) (Fin (1/2)) initial_state = Inr initial_state
   \<and> setSettings (Fin 6) True (Fin 1000) (Fin (1/2)) example_open =
       Inr (example_open\<lparr>sockets := [\<lparr>readyState = OPEN,
         sent = [Text (init_message (Fin 44100) (Fin 2)),
                 Text (JObj [(''action'', JStr ''set_params''), (''gain'', JNum (Fin 6)),
                             (''filter_enabled'', JBool True), (''cutoff_freq'', JNum (Fin 1000)),
                             (''integration_time'', JNum (Fin (1/2)))])]\<rparr>]\<rparr>)"
  using setSettings_sends_set_params[of example_open "Fin 6" True "Fin 1000" "Fin (1/2)"]
    setSettings_sends_set_params[of initial_state "Fin 6" True "Fin 1000" "Fin (1/2)"]
  by (simp add: example_open_eq socket_open_def initial_state_def)

subsection \<open>Incoming messages\<close>

lemma get_prop_total:
  "get_prop data k = Inr v \<Longrightarrow> \<exists>w. get_prop data k' = Inr w"
  by (cases data) (auto split: option.splits)

lemma onmessage_recording_saved:
  assumes "get_prop data ''type'' = Inr (JStr ''recording_saved'')"
  shows "\<exists>i f. get_prop data ''id'' = Inr i \<and> get_prop data ''filename'' = Inr f \<and>
         ws_onmessage (Some data) st =
           Inr (st\<lparr>lastRecording := Some \<lparr>id_field = i, filename = f\<rparr>, isRecording := False\<rparr>)"
proof -
  from get_prop_total[OF assms] obtain i f
    where "get_prop data ''id'' = Inr i" "get_prop data ''filename'' = Inr f" by metis
  then show ?thesis using assms by (simp add: ws_onmessage_def)
qed

lemma onmessage_other:
  assumes "message_type parsed \<noteq> Some (JStr ''recording_saved'')"
  shows "lastRecording (or_unchanged st (ws_onmessage parsed st)) = lastRecording st"
  using assms
  by (auto simp: message_type_def ws_onmessage_def or_unchanged_def Let_def
      split: option.splits sum.splits)

text \<open>
  Claim C7. On a message of type \<open>recording_saved\<close> the handler sets \<open>lastRecording\<close> to
  the pair of the \<open>id\<close> and the \<open>filename\<close> of the message and \<open>isRecording\<close> to false,
  and changes nothing else; a message of any other type, or one that does not parse or
  has no type, leaves \<open>lastRecording\<close> as it is.
\<close>

theorem recording_saved_sets_lastRecording:
  "(message_type (Some data) = Some (JStr ''recording_saved'') \<longrightarrow>
      (\<exists>i f. get_prop data ''id'' = Inr i \<and> get_prop data ''filename'' = Inr f \<and>
         ws_onmessage (Some data) st =
           Inr (st\<lparr>lastRecording := Some \<lparr>id_field = i, filename = f\<rparr>, isRecording := False\<rparr>)))
   \<and> (message_type parsed \<noteq> Some (JStr ''recording_saved'') \<longrightarrow>
        lastRecording (step (WsMessage n parsed) st) = lastRecording st)"
proof (intro conjI impI)
  assume "message_type (Some data) = Some (JStr ''recording_saved'')"
  then have "get_prop data ''type'' = Inr (JStr ''recording_saved'')"
    by (simp add: message_type_def split: sum.splits)
  then show "\<exists>i f. get_prop data ''id'' = Inr i \<and> get_prop data ''filename'' = Inr f \<and>
         ws_onmessage (Some data) st =
           Inr (st\<lparr>lastRecording := Some \<lparr>id_field = i, filename = f\<rparr>, isRecording := False\<rparr>)"
    by (rule onmessage_recording_saved)
next
  assume "message_type parsed \<noteq> Some (JStr ''recording_saved'')"
  then show "lastRecording (step (WsMessage n parsed) st) = lastRecording st"
    by (simp add: onmessage_other)
qed

theorem recording_saved_sets_lastRecording_witness:
  "message_type (Some saved_example) = Some (JStr ''recording_saved'')
   \<and> ws_onmessage (Some saved_example) example_open =
       Inr (example_open\<lparr>lastRecording := Some \<lparr>id_field = JNum (Fin 7), filename = JStr ''take.wav''\<rparr>,
                          isRecording := False\<rparr>)
   \<and> message_type (Some (JObj [(''type'', JStr ''meter''), (''rms'', JNum (Fin (- 20)))]))
       \<noteq> Some (JStr ''recording_saved'')
   \<and> lastRecording (step (WsMessage 0 (Some (JObj [(''type'', JStr ''meter''), (''rms'', JNum (Fin (- 20)))])))
        example_open) = None"
  using recording_saved_sets_lastRecording[where data = saved_example and st = example_open and n = 0
      and parsed = "Some (JObj [(''type'', JStr ''meter''), (''rms'', JNum (Fin (- 20)))])"]
  by (simp add: saved_example_def message_type_def example_open_eq)

subsection \<open>Before the first message\<close>

lemma send_on_fields:
  assumes "send_on i d st = Inr st'"
  shows "rms st' = rms st" "spectrum st' = spectrum st" "panning st' = panning st"
    "lastRecording st' = lastRecording st" "isRecording st' = isRecording st"
  using assms by (auto simp: send_on_def split: if_splits sum.splits)

lemma send_current_fields:
  assumes "send_current d st = Inr st'"
  shows "rms st' = rms st" "spectrum st' = spectrum st" "panning st' = panning st"
    "lastRecording st' = lastRecording st" "isRecording st' = isRecording st"
  using assms send_on_fields[of _ d st st'] by (auto simp: send_current_def split: option.splits)

lemma or_unchanged_meters:
  assumes "\<And>st'. r = Inr st' \<Longrightarrow> meters st' = meters st"
  shows "meters (or_unchanged st r) = meters st"
  using assms by (cases r) (simp_all add: or_unchanged_def)

lemma send_current_meters: "send_current d st = Inr st' \<Longrightarrow> meters st' = meters st"
  by (simp add: meters_def send_current_fields)

lemma step_meters:
  assumes "\<not> is_message e"
  shows "meters (step e st) = meters st"
proof (cases e)
  case Mount
  then show ?thesis by (simp add: connectWebSocket_def meters_def)
next
  case Unmount
  then show ?thesis by (simp add: cleanup_def meters_def split: option.splits)
next
  case (WsOpened i)
  then show ?thesis by (simp add: ws_onopen_opened or_unchanged_def meters_def)
next
  case (WsClosed i)
  then show ?thesis by (simp add: ws_onclose_def set_readyState_def meters_def)
next
  case (WsMessage i parsed)
  then show ?thesis using assms by simp
next
  case CallStartAudio
  then show ?thesis by (simp add: startAudio_begin_def connectWebSocket_def meters_def)
next
  case (AudioContextCreated ctx)
  then show ?thesis by (simp add: startAudio_context_def meters_def)
next
  case (AudioProcess buf)
  have "meters (or_unchanged st (onaudioprocess buf st)) = meters st"
    by (rule or_unchanged_meters)
      (auto simp: onaudioprocess_def split: if_splits sum.splits option.splits
        dest: send_current_meters)
  then show ?thesis using AudioProcess by simp
next
  case (WorkletQuantum inputs)
  have "meters (or_unchanged st (port_onmessage d st)) = meters st" for d
    by (rule or_unchanged_meters)
      (auto simp: port_onmessage_def split: if_splits dest: send_current_meters)
  then show ?thesis using WorkletQuantum by (simp split: option.splits)
next
  case CallStartRecording
  have "meters (or_unchanged st (startRecording st)) = meters st"
    by (rule or_unchanged_meters)
      (auto simp: startRecording_def Let_def meters_def split: if_splits sum.splits
        dest: send_current_fields)
  then show ?thesis using CallStartRecording by simp
next
  case CallStopRecording
  have "meters (or_unchanged st (stopRecording st)) = meters st"
    by (rule or_unchanged_meters)
      (auto simp: stopRecording_def split: if_splits dest: send_current_meters)
  then show ?thesis using CallStopRecording by simp
next
  case (CallSetSettings g f c t)
  have "meters (or_unchanged st (setSettings g f c t st)) = meters st"
    by (rule or_unchanged_meters)
      (auto simp: setSettings_def split: if_splits dest: send_current_meters)
  then show ?thesis using CallSetSettings by simp
qed

lemma step_isRecording:
  assumes "\<not> is_message e" "e \<noteq> CallStartRecording"
  shows "isRecording (step e st) = isRecording st"
proof (cases e)
  case Mount
  then show ?thesis by (simp add: connectWebSocket_def)
next
  case Unmount
  then show ?thesis by (simp add: cleanup_def split: option.splits)
next
  case (WsOpened i)
  then show ?thesis by (simp add: ws_onopen_opened or_unchanged_def)
next
  case (WsClosed i)
  then show ?thesis by (simp add: ws_onclose_def set_readyState_def)
next
  case (WsMessage i parsed)
  then show ?thesis using assms by simp
next
  case CallStartAudio
  then show ?thesis by (simp add: startAudio_begin_def connectWebSocket_def)
next
  case (AudioContextCreated ctx)
  then show ?thesis by (simp add: startAudio_context_def)
next
  case (AudioProcess buf)
  then show ?thesis
    by (auto simp: onaudioprocess_def or_unchanged_def split: if_splits sum.splits option.splits
        dest: send_current_fields)
next
  case (WorkletQuantum inputs)
  then show ?thesis
    by (auto simp: port_onmessage_def or_unchanged_def split: if_splits sum.splits option.splits
        dest: send_current_fields)
next
  case CallStartRecording
  then show ?thesis using assms by simp
next
  case CallStopRecording
  then show ?thesis
    by (auto simp: stopRecording_def or_unchanged_def split: if_splits sum.splits
        dest: send_current_fields)
next
  case (CallSetSettings g f c t)
  then show ?thesis
    by (auto simp: setSettings_def or_unchanged_def split: if_splits sum.splits
        dest: send_current_fields)
qed

lemma run_meters: "\<forall>e \<in> set evs. \<not> is_message e \<Longrightarrow> meters (run evs st) = meters st"
  by (induction evs arbitrary: st) (simp_all add: step_meters)

lemma run_isRecording:
  "\<forall>e \<in> set evs. \<not> is_message e \<and> e \<noteq> CallStartRecording \<Longrightarrow>
   isRecording (run evs st) = isRecording st"
  by (induction evs arbitrary: st) (simp_all add: step_isRecording)

lemma received_Nil_iff: "received evs = [] \<longleftrightarrow> (\<forall>e \<in> set evs. \<not> is_message e)"
  by (induction evs rule: received.induct) simp_all

text \<open>
  Claim C9, as amended. As long as no message of the server has been received, the
  hook reports \<open>rms = -100\<close>, \<open>panning = 0\<close>, \<open>spectrum = []\<close> and \<open>lastRecording = null\<close>;
  \<open>isRecording\<close> is false as long as, in addition, \<open>startRecording\<close> has not been called.
\<close>

theorem initial_values_until_message:
  assumes "received evs = []"
  shows "rms (run evs initial_state) = JNum (Fin (- 100))
       \<and> panning (run evs initial_state) = JNum (Fin 0)
       \<and> spectrum (run evs initial_state) = JArr []
       \<and> lastRecording (run evs initial_state) = None
       \<and> (CallStartRecording \<notin> set evs \<longrightarrow> isRecording (run evs initial_state) = False)"
proof -
  have no: "\<forall>e \<in> set evs. \<not> is_message e"
    using assms by (simp add: received_Nil_iff)
  have "meters (run evs initial_state) = meters initial_state"
    using no by (rule run_meters)
  moreover have "isRecording (run evs initial_state) = isRecording initial_state"
    if "CallStartRecording \<notin> set evs"
    using no that by (intro run_isRecording) auto
  ultimately show ?thesis by (auto simp: meters_def initial_state_def)
qed

theorem initial_values_until_message_witness:
  "received [Mount, WsOpened 0, CallSetSettings (Fin 6) True (Fin 1000) (Fin (1/2))] = []
   \<and> CallStartRecording \<notin> set [Mount, WsOpened 0, CallSetSettings (Fin 6) True (Fin 1000) (Fin (1/2))]
   \<and> rms (run [Mount, WsOpened 0, CallSetSettings (Fin 6) True (Fin 1000) (Fin (1/2))] initial_state)
       = JNum (Fin (- 100))
   \<and> isRecording (run [Mount, WsOpened 0, CallSetSettings (Fin 6) True (Fin 1000) (Fin (1/2))]
       initial_state) = False"
  using initial_values_until_message[of "[Mount, WsOpened 0, CallSetSettings (Fin 6) True (Fin 1000) (Fin (1/2))]"]
  by simp

text \<open>
  Claim C9 as it is written fails: after the socket has opened, a call of
  \<open>startRecording\<close> sets \<open>isRecording\<close> before any message has been received.
\<close>

theorem isRecording_before_message_counterexample:
  "received [Mount, WsOpened 0, CallStartRecording] = []
   \<and> isRecording (run [Mount, WsOpened 0, CallStartRecording] initial_state) = True"
  using example_open_eq
  by (simp add: example_open_def startRecording_def socket_open_def send_current_def
      send_on_def ws_send_def or_unchanged_def Let_def)

section \<open>The claim on the level meter\<close>

lemma fl64_not_NaN [simp]: "fl64 x \<noteq> NaN"
  by (simp add: fl64_def Let_def)

lemma quotient_not_NaN: "js_div_by (js_add (Fin d) (Fin 60)) 60 \<noteq> NaN"
  using fl64_not_NaN[of "d + 60"] by (cases "fl64 (d + 60)") simp_all

lemma clamp_unit:
  assumes "q \<noteq> NaN"
  shows "\<exists>n. Math_max (Fin 0) (Math_min (Fin 1) q) = Fin n \<and> 0 \<le> n \<and> n \<le> 1
           \<and> (\<forall>r. q = Fin r \<longrightarrow> n = max 0 (min 1 r))"
  using assms by (cases q) (auto simp: Math_max_def Math_min_def max_def min_def)

text \<open>
  A fraction of a width that is a whole number below \<open>2^53\<close> rounds to a value that is
  not negative and not more than the width.
\<close>

lemma fl64_fraction_of_width:
  assumes "0 \<le> n" "n \<le> 1" "w < 2 ^ 53"
  shows "\<exists>b. fl64 (real w * n) = Fin b \<and> 0 \<le> b \<and> b \<le> real w"
proof (cases "real w * n = 0")
  case True
  then show ?thesis by (simp add: fl64_def)
next
  case False
  define x where "x = real w * n"
  define e where "e = quantum x"
  define R where "R = round_half_even (x / 2 powi e)"
  have "0 \<le> x" using assms(1) by (simp add: x_def)
  moreover have "x \<noteq> 0" using False by (simp add: x_def)
  ultimately have x0: "0 < x" by simp
  have "x \<le> real w * 1" unfolding x_def using assms(2) by (intro mult_left_mono) simp_all
  then have x1: "x \<le> real w" by simp
  note x = x0 x1
  have w: "real w < 2 ^ 53"
  proof -
    have "real w < real (2 ^ 53)" using assms(3) by (simp only: of_nat_less_iff)
    then show ?thesis by simp
  qed
  have "\<bar>x\<bar> < 2 powi (0 + 53)" using x w by simp
  then have e0: "e \<le> 0" unfolding e_def using x(1) by (intro quantum_le) simp_all
  define j where "j = nat (- e)"
  have j: "e = - int j" using e0 by (simp add: j_def)
  have pj: "(2::real) powi e * 2 ^ j = 1"
    unfolding j by (simp add: power_int_minus)
  have wq: "real w / 2 powi e = of_int (int w * 2 ^ j)"
  proof -
    have "real w / 2 powi e = real w * 2 ^ j"
      using pj by (simp add: field_simps)
    then show ?thesis by simp
  qed
  have "x / 2 powi e \<le> real w / 2 powi e"
    using x(2) by (simp add: divide_right_mono)
  then have "R \<le> int w * 2 ^ j"
    unfolding R_def wq by (rule round_half_even_le)
  then have "real_of_int R \<le> real_of_int (int w * 2 ^ j)"
    by (simp only: of_int_le_iff)
  then have "real_of_int R * 2 powi e \<le> real_of_int (int w * 2 ^ j) * 2 powi e"
    by (rule mult_right_mono) simp
  also have "\<dots> = real w"
    unfolding wq[symmetric] by simp
  finally have hi: "real_of_int R * 2 powi e \<le> real w" .
  have "0 \<le> R"
    unfolding R_def using x(1) by (intro round_half_even_ge) simp
  then have lo: "0 \<le> real_of_int R * 2 powi e" by simp
  have "\<bar>real_of_int R * 2 powi e\<bar> \<le> 2 ^ 64" using lo hi w by simp
  then have "\<bar>real_of_int R * 2 powi e\<bar> < threshold64" by (rule below_threshold64)
  then have "fl64 x = Fin (of_int R * 2 powi e)"
    using x(1) by (simp add: fl64_def Let_def e_def R_def)
  then show ?thesis using lo hi unfolding x_def by blast
qed

lemma fl64_examples:
  "fl64 30 = Fin 30" "fl64 (1/2) = Fin (1/2)" "fl64 300 = Fin 300" "fl64 34 = Fin 34"
proof -
  show "fl64 30 = Fin 30" using fl64_of_int[of 30] by simp
  show "fl64 300 = Fin 300" using fl64_of_int[of 300] by simp
  show "fl64 34 = Fin 34" using fl64_of_int[of 34] by simp
  have "\<bar>1 / 2 :: real\<bar> \<le> 2 ^ 64" by simp
  then have "\<bar>1 / 2 :: real\<bar> < threshold64" by (rule below_threshold64)
  then show "fl64 (1/2) = Fin (1/2)" by (intro fl64_exact[where m = 1 and e = "- 1"]) simp_all
qed

text \<open>
  Claim C10. For a finite \<open>dbLevel\<close> the fraction of the bar is the quotient
  \<open>(dbLevel + 60) / 60\<close>, as the binary64 operators compute it, clamped to \<open>[0, 1]\<close>; it is
  the exact quotient clamped whenever the sum and the quotient are binary64 values. The
  width of the rectangle filled with the gradient is the product of the width of the
  canvas, an unsigned 32-bit number, and that fraction: it is not negative and not more
  than the width of the canvas, whatever the level.
\<close>

theorem VuMeter_bar_within_canvas:
  assumes "w < 2 ^ 32"
  shows "\<exists>n bar. normalized (Fin d) = Fin n \<and> 0 \<le> n \<and> n \<le> 1
     \<and> (\<forall>q. js_div_by (js_add (Fin d) (Fin 60)) 60 = Fin q \<longrightarrow> n = max 0 (min 1 q))
     \<and> (fl64 (d + 60) = Fin (d + 60) \<and> fl64 ((d + 60) / 60) = Fin ((d + 60) / 60)
          \<longrightarrow> n = max 0 (min 1 ((d + 60) / 60)))
     \<and> VuMeter_draw (Some (w, h)) True (Fin d) ! 2 =
          FillRect ''gradient'' (Fin 0) (Fin 0) (Fin bar) (Fin (real h))
     \<and> js_mul (Fin (real w)) (Fin n) = Fin bar \<and> 0 \<le> bar \<and> bar \<le> real w"
proof -
  from clamp_unit[OF quotient_not_NaN, of d] obtain n
    where n: "normalized (Fin d) = Fin n" "0 \<le> n" "n \<le> 1"
      and q: "\<forall>q. js_div_by (js_add (Fin d) (Fin 60)) 60 = Fin q \<longrightarrow> n = max 0 (min 1 q)"
    unfolding normalized_def Let_def by blast
  have "w < 2 ^ 53"
    using assms by (rule less_trans) simp
  from fl64_fraction_of_width[OF n(2,3) this] obtain bar
    where bar: "fl64 (real w * n) = Fin bar" "0 \<le> bar" "bar \<le> real w" by blast
  have "VuMeter_draw (Some (w, h)) True (Fin d) ! 2 =
          FillRect ''gradient'' (Fin 0) (Fin 0) (Fin bar) (Fin (real h))"
    by (simp add: VuMeter_draw_def Let_def n(1) bar(1))
  moreover have "fl64 (d + 60) = Fin (d + 60) \<and> fl64 ((d + 60) / 60) = Fin ((d + 60) / 60)
          \<longrightarrow> n = max 0 (min 1 ((d + 60) / 60))"
    using q by simp
  ultimately show ?thesis using n q bar by auto
qed

theorem VuMeter_bar_within_canvas_witness:
  "(600::nat) < 2 ^ 32
   \<and> js_div_by (js_add (Fin (- 30)) (Fin 60)) 60 = Fin (1/2)
   \<and> normalized (Fin (- 30)) = Fin (1/2)
   \<and> VuMeter_draw (Some (600, 60)) True (Fin (- 30)) ! 2 =
       FillRect ''gradient'' (Fin 0) (Fin 0) (Fin 300) (Fin 60)"
proof -
  have w: "(600::nat) < 2 ^ 32" by simp
  have q: "js_div_by (js_add (Fin (- 30)) (Fin 60)) 60 = Fin (1/2)"
    by (simp add: fl64_examples)
  from VuMeter_bar_within_canvas[OF w, of "- 30" 60] obtain n bar
    where n: "normalized (Fin (- 30)) = Fin n"
      and nq: "\<forall>q. js_div_by (js_add (Fin (- 30)) (Fin 60)) 60 = Fin q \<longrightarrow> n = max 0 (min 1 q)"
      and draw: "VuMeter_draw (Some (600, 60)) True (Fin (- 30)) ! 2 =
          FillRect ''gradient'' (Fin 0) (Fin 0) (Fin bar) (Fin (real 60))"
      and bar: "js_mul (Fin (real 600)) (Fin n) = Fin bar"
    by blast
  from nq[rule_format, OF q] have "n = 1/2" by simp
  with bar have "bar = 300" by (simp add: fl64_examples)
  with draw n \<open>n = 1/2\<close> w q show ?thesis by simp
qed

end
